theory Spec2Isabelle
  imports Main
begin

section \<open>JavaScript values and the library functions Address4 calls\<close>

text \<open>
  The class \<open>Address4\<close> of \<open>lib/ipv4.ts\<close> works on strings and numbers through
  \<open>parseInt\<close>, \<open>toString\<close>, \<open>split\<close>, \<open>join\<close>, \<open>slice\<close>, lodash \<open>padStart\<close> and
  \<open>repeat\<close>, sprintf-js and jsbn. This section gives each of them as a function.

  A JavaScript Number that holds an integer, or NaN. \<open>parseInt\<close> only ever returns such
  values. The model keeps the integer exactly; JavaScript keeps it exactly below \<open>2^53\<close>.
  Strings are lists of 8-bit code units.
\<close>

datatype number = NaN | Num int

text \<open>The relational operators are false as soon as one operand is NaN.\<close>

fun num_lt :: "number \<Rightarrow> number \<Rightarrow> bool" where
  "num_lt (Num a) (Num b) = (a < b)"
| "num_lt _ _ = False"

fun num_gt :: "number \<Rightarrow> number \<Rightarrow> bool" where
  "num_gt (Num a) (Num b) = (a > b)"
| "num_gt _ _ = False"

fun num_minus :: "number \<Rightarrow> number \<Rightarrow> number" where
  "num_minus (Num a) (Num b) = Num (a - b)"
| "num_minus _ _ = NaN"

subsection \<open>Digits\<close>

definition digit_char :: "nat \<Rightarrow> char" where
  "digit_char d = (if d < 10 then char_of (48 + d) else char_of (87 + d))"

definition digit_val :: "char \<Rightarrow> nat option" where
  "digit_val c =
     (let k = (of_char c :: nat) in
      if 48 \<le> k \<and> k \<le> 57 then Some (k - 48)
      else if 97 \<le> k \<and> k \<le> 122 then Some (k - 87)
      else if 65 \<le> k \<and> k \<le> 90 then Some (k - 55)
      else None)"

definition is_digit :: "nat \<Rightarrow> char \<Rightarrow> bool" where
  "is_digit radix c = (case digit_val c of Some d \<Rightarrow> d < radix | None \<Rightarrow> False)"

text \<open>The numeral of \<open>n\<close> in radix \<open>b\<close>, most significant digit first, lower case.\<close>

function digits :: "nat \<Rightarrow> nat \<Rightarrow> string" where
  "digits b n =
     (if b < 2 then []
      else if n < b then [digit_char n]
      else digits b (n div b) @ [digit_char (n mod b)])"
  by pat_completeness auto
termination
  by (relation "measure snd") auto

declare digits.simps [simp del]

text \<open>The value of a digit string in radix \<open>b\<close>; a character that is no digit is passed over.\<close>

definition radix_value :: "nat \<Rightarrow> string \<Rightarrow> nat" where
  "radix_value b s =
     foldl (\<lambda>acc c. case digit_val c of Some d \<Rightarrow> acc * b + d | None \<Rightarrow> acc) 0 s"

definition int_toString :: "int \<Rightarrow> nat \<Rightarrow> string" where
  "int_toString i radix =
     (if i < 0 then CHR ''-'' # digits radix (nat (- i)) else digits radix (nat i))"

text \<open>\<open>Number.prototype.toString(radix)\<close>, and \<open>ToString\<close> as string concatenation and
  \<open>Array.prototype.join\<close> apply it to a number.\<close>

fun number_toString :: "number \<Rightarrow> nat \<Rightarrow> string" where
  "number_toString NaN radix = ''NaN''"
| "number_toString (Num i) radix = int_toString i radix"

definition ToString :: "number \<Rightarrow> string" where
  "ToString n = number_toString n 10"

subsection \<open>parseInt\<close>

definition is_whitespace :: "char \<Rightarrow> bool" where
  "is_whitespace c = ((of_char c :: nat) \<in> set [9, 10, 11, 12, 13, 32, 160])"

text \<open>
  \<open>parseInt(str, radix)\<close> for the radices the class passes (10 and 16): leading white space
  is dropped, one sign is read, with radix 16 a prefix \<open>0x\<close> is dropped, and the longest
  run of digits of the radix is the value; NaN when that run is empty.
\<close>

definition parseInt :: "string \<Rightarrow> nat \<Rightarrow> number" where
  "parseInt str radix =
     (let s = dropWhile is_whitespace str;
          sign = (if take 1 s = ''-'' then - 1 else (1 :: int));
          s = (if take 1 s = ''+'' \<or> take 1 s = ''-'' then drop 1 s else s);
          s = (if radix = 16 \<and> (take 2 s = ''0x'' \<or> take 2 s = ''0X'') then drop 2 s else s);
          z = takeWhile (is_digit radix) s
      in if z = [] then NaN else Num (sign * int (radix_value radix z)))"

subsection \<open>Strings and arrays\<close>

text \<open>lodash \<open>padStart\<close> with a one-character pad, and lodash \<open>repeat\<close>.\<close>

definition padStart :: "string \<Rightarrow> nat \<Rightarrow> char \<Rightarrow> string" where
  "padStart s n c = replicate (n - length s) c @ s"

fun repeat :: "string \<Rightarrow> number \<Rightarrow> string" where
  "repeat s NaN = ''''"
| "repeat s (Num n) = concat (replicate (nat n) s)"

text \<open>\<open>String.prototype.slice(start, end)\<close>: a negative index counts from the end, NaN is
  0, and both are clamped to the string.\<close>

definition slice_index :: "nat \<Rightarrow> number \<Rightarrow> nat" where
  "slice_index len x =
     (case x of NaN \<Rightarrow> 0
      | Num i \<Rightarrow> if i < 0 then nat (int len + i) else min (nat i) len)"

definition slice :: "string \<Rightarrow> number \<Rightarrow> number \<Rightarrow> string" where
  "slice s start end =
     (let from = slice_index (length s) start;
          to = slice_index (length s) end
      in take (to - from) (drop from s))"

text \<open>\<open>String.prototype.split(sep)\<close> for a one-character separator.\<close>

fun split_str :: "char \<Rightarrow> string \<Rightarrow> string list" where
  "split_str sep [] = [''''] "
| "split_str sep (c # cs) =
     (if c = sep then '''' # split_str sep cs
      else (case split_str sep cs of
              [] \<Rightarrow> [[c]]
            | g # gs \<Rightarrow> (c # g) # gs))"

fun join :: "string \<Rightarrow> string list \<Rightarrow> string" where
  "join sep [] = ''''"
| "join sep [x] = x"
| "join sep (x # y # ys) = x @ sep @ join sep (y # ys)"

text \<open>
  sprintf-js, format \<open>%02x\<close>: the argument as an unsigned 32-bit integer (NaN is 0), in
  lower-case hexadecimal, padded with zeros to two characters.
\<close>

definition sprintf_02x :: "number \<Rightarrow> string" where
  "sprintf_02x v =
     padStart (digits 16 (case v of NaN \<Rightarrow> 0 | Num i \<Rightarrow> nat (i mod 2 ^ 32))) 2 CHR ''0''"

text \<open>
  jsbn: a BigInteger is an integer of any size. \<open>new BigInteger(s, radix)\<close> is modelled on
  strings of digits of the radix, the only strings the class passes to it.
\<close>

definition BigInteger :: "string \<Rightarrow> nat \<Rightarrow> int" where
  "BigInteger s radix = int (radix_value radix s)"

definition BigInteger_toString :: "int \<Rightarrow> nat \<Rightarrow> string" where
  "BigInteger_toString b radix = int_toString b radix"

section \<open>Constants of v4/constants\<close>

text \<open>Modelled from the spec: the constants module \<open>v4/constants\<close> (BITS, GROUPS and the
  two regular expressions) is not among the sources. The spec gives 32 bits and 4 groups.\<close>

definition BITS :: int where
  "BITS = 32"

definition GROUPS :: nat where
  "GROUPS = 4"

text \<open>Modelled from the spec: \<open>RE_SUBNET_STRING\<close> recognises a trailing \<open>/<digits>\<close> subnet
  suffix. \<open>exec\<close> gives the matched text, \<open>replace\<close> removes it.\<close>

definition RE_SUBNET_STRING_exec :: "string \<Rightarrow> string option" where
  "RE_SUBNET_STRING_exec s =
     (let ds = takeWhile (is_digit 10) (rev s);
          r = dropWhile (is_digit 10) (rev s)
      in if ds \<noteq> [] \<and> take 1 r = ''/'' then Some (CHR ''/'' # rev ds) else None)"

definition RE_SUBNET_STRING_replace :: "string \<Rightarrow> string" where
  "RE_SUBNET_STRING_replace s =
     (case RE_SUBNET_STRING_exec s of
        None \<Rightarrow> s
      | Some m \<Rightarrow> take (length s - length m) s)"

text \<open>Modelled from the spec: \<open>RE_ADDRESS\<close> is the dotted-decimal grammar, four groups
  separated by periods, each group one to three decimal digits with value 0 to 255, and no
  other character.\<close>

definition octet :: "string \<Rightarrow> bool" where
  "octet g = (1 \<le> length g \<and> length g \<le> 3 \<and> list_all (is_digit 10) g \<and> radix_value 10 g \<le> 255)"

definition RE_ADDRESS_match :: "string \<Rightarrow> bool" where
  "RE_ADDRESS_match s = (length (split_str CHR ''.'' s) = 4 \<and> list_all octet (split_str CHR ''.'' s))"

section \<open>The class Address4\<close>

record Address4 =
  address :: string
  addressMinusSuffix :: "string option"
  error :: "string option"
  groups :: nat
  parsedAddress :: "string list"
  parsedSubnet :: string
  subnet :: string
  subnetMask :: number
  v4 :: bool
  valid :: bool

text \<open>The field initialisers, before the constructor body runs.\<close>

definition Address4_fields :: Address4 where
  "Address4_fields =
     \<lparr> address = '''', addressMinusSuffix = None, error = None, groups = GROUPS,
       parsedAddress = [], parsedSubnet = '''', subnet = ''/32'', subnetMask = Num 32,
       v4 = True, valid = False \<rparr>"

text \<open>\<open>parse\<close> sets \<open>valid\<close> or \<open>error\<close> on the object and returns the groups.\<close>

definition parse :: "Address4 \<Rightarrow> string \<Rightarrow> string list \<times> Address4" where
  "parse this addr =
     (let groups = split_str CHR ''.'' addr
      in if RE_ADDRESS_match addr
         then (groups, this\<lparr>valid := True\<rparr>)
         else (groups, this\<lparr>error := Some ''Invalid IPv4 address.''\<rparr>))"

text \<open>The tail of the constructor, after the subnet suffix has been dealt with:
  \<open>this.addressMinusSuffix = address; this.parsedAddress = this.parse(address)\<close>.\<close>

definition constructor_parse :: "Address4 \<Rightarrow> string \<Rightarrow> Address4" where
  "constructor_parse this addr =
     (let this = this\<lparr>addressMinusSuffix := Some addr\<rparr>;
          (groups, this) = parse this addr
      in this\<lparr>parsedAddress := groups\<rparr>)"

text \<open>The constructor. On a subnet mask outside 0..BITS it returns early: the fields
  \<open>addressMinusSuffix\<close> and \<open>parsedAddress\<close> keep their initial values.\<close>

definition new_Address4 :: "string \<Rightarrow> Address4" where
  "new_Address4 addr =
     (let this = Address4_fields\<lparr>address := addr\<rparr>
      in case RE_SUBNET_STRING_exec addr of
           Some m \<Rightarrow>
             (let this = this\<lparr>parsedSubnet := remove1 CHR ''/'' m\<rparr>;
                  this = this\<lparr>subnetMask := parseInt (parsedSubnet this) 10\<rparr>;
                  this = this\<lparr>subnet := ''/'' @ ToString (subnetMask this)\<rparr>
              in if num_lt (subnetMask this) (Num 0) \<or> num_gt (subnetMask this) (Num BITS)
                 then this\<lparr>valid := False, error := Some ''Invalid subnet mask.''\<rparr>
                 else constructor_parse this (RE_SUBNET_STRING_replace addr))
         | None \<Rightarrow> constructor_parse this addr)"

definition isValid :: "Address4 \<Rightarrow> bool" where
  "isValid this = valid this"

definition correctForm :: "Address4 \<Rightarrow> string" where
  "correctForm this =
     join ''.'' (map (\<lambda>part. ToString (parseInt part 10)) (parsedAddress this))"

text \<open>The loop of \<open>fromHex\<close>: \<open>for (i = 0; i < 8; i += 2)\<close>.\<close>

function fromHex_loop :: "string \<Rightarrow> nat \<Rightarrow> number list \<Rightarrow> number list" where
  "fromHex_loop padded i gs =
     (if i < 8
      then fromHex_loop padded (i + 2)
             (gs @ [parseInt (slice padded (Num (int i)) (Num (int i + 2))) 16])
      else gs)"
  by pat_completeness auto
termination
  by (relation "measure (\<lambda>(padded, i, gs). 8 - i)") auto

declare fromHex_loop.simps [simp del]

definition fromHex :: "string \<Rightarrow> Address4" where
  "fromHex hex =
     (let padded = padStart (filter (\<lambda>c. c \<noteq> CHR '':'') hex) 8 CHR ''0'';
          groups = fromHex_loop padded 0 []
      in new_Address4 (join ''.'' (map ToString groups)))"

definition fromInteger :: "number \<Rightarrow> Address4" where
  "fromInteger n = fromHex (number_toString n 16)"

definition toHex :: "Address4 \<Rightarrow> string" where
  "toHex this = join '':'' (map (\<lambda>part. sprintf_02x (parseInt part 10)) (parsedAddress this))"

definition toArray :: "Address4 \<Rightarrow> number list" where
  "toArray this = map (\<lambda>part. parseInt part 10) (parsedAddress this)"

text \<open>\<open>bigInteger\<close> returns null (None) on an address that is not valid.\<close>

definition bigInteger :: "Address4 \<Rightarrow> int option" where
  "bigInteger this =
     (if \<not> valid this then None
      else Some (BigInteger
             (concat (map (\<lambda>n. sprintf_02x (parseInt n 10)) (parsedAddress this))) 16))"

text \<open>Calling a method on null throws a TypeError; it is the only exception of the class.\<close>

datatype error = TypeError

definition binaryZeroPad :: "Address4 \<Rightarrow> error + string" where
  "binaryZeroPad this =
     (case bigInteger this of
        None \<Rightarrow> Inl TypeError
      | Some b \<Rightarrow> Inr (padStart (BigInteger_toString b 2) (nat BITS) CHR ''0''))"

definition getBitsBase2 :: "Address4 \<Rightarrow> number \<Rightarrow> number \<Rightarrow> error + string" where
  "getBitsBase2 this start end =
     (case binaryZeroPad this of
        Inl e \<Rightarrow> Inl e
      | Inr s \<Rightarrow> Inr (slice s start end))"

text \<open>The method \<open>mask\<close>, here \<open>mask_bits\<close> since HOL has a constant \<open>mask\<close>. Its
  optional argument is None when it is left out.\<close>

definition mask_bits :: "Address4 \<Rightarrow> number option \<Rightarrow> error + string" where
  "mask_bits this m =
     getBitsBase2 this (Num 0) (case m of None \<Rightarrow> subnetMask this | Some k \<Rightarrow> k)"

definition fromBigInteger :: "int \<Rightarrow> Address4" where
  "fromBigInteger b = fromInteger (parseInt (BigInteger_toString b 10) 10)"

definition helper_startAddress :: "Address4 \<Rightarrow> error + int" where
  "helper_startAddress this =
     (case mask_bits this None of
        Inl e \<Rightarrow> Inl e
      | Inr m \<Rightarrow> Inr (BigInteger (m @ repeat ''0'' (num_minus (Num BITS) (subnetMask this))) 2))"

definition startAddress :: "Address4 \<Rightarrow> error + Address4" where
  "startAddress this =
     (case helper_startAddress this of
        Inl e \<Rightarrow> Inl e
      | Inr b \<Rightarrow> Inr (fromBigInteger b))"

definition startAddressExclusive :: "Address4 \<Rightarrow> error + Address4" where
  "startAddressExclusive this =
     (let adjust = BigInteger ''1'' 10
      in case helper_startAddress this of
           Inl e \<Rightarrow> Inl e
         | Inr b \<Rightarrow> Inr (fromBigInteger (b + adjust)))"

definition helper_endAddress :: "Address4 \<Rightarrow> error + int" where
  "helper_endAddress this =
     (case mask_bits this None of
        Inl e \<Rightarrow> Inl e
      | Inr m \<Rightarrow> Inr (BigInteger (m @ repeat ''1'' (num_minus (Num BITS) (subnetMask this))) 2))"

definition endAddress :: "Address4 \<Rightarrow> error + Address4" where
  "endAddress this =
     (case helper_endAddress this of
        Inl e \<Rightarrow> Inl e
      | Inr b \<Rightarrow> Inr (fromBigInteger b))"

definition endAddressExclusive :: "Address4 \<Rightarrow> error + Address4" where
  "endAddressExclusive this =
     (let adjust = BigInteger ''1'' 10
      in case helper_endAddress this of
           Inl e \<Rightarrow> Inl e
         | Inr b \<Rightarrow> Inr (fromBigInteger (b - adjust)))"

text \<open>Modelled from the spec: \<open>isInSubnet\<close> of the module \<open>common\<close>, which is not among the
  sources. This address is in the other's subnet when the leading \<open>other.subnetMask\<close> bits
  of the two zero-padded binary forms are equal.\<close>

definition isInSubnet :: "Address4 \<Rightarrow> Address4 \<Rightarrow> error + bool" where
  "isInSubnet this other =
     (case mask_bits this (Some (subnetMask other)) of
        Inl e \<Rightarrow> Inl e
      | Inr a \<Rightarrow>
          (case mask_bits other (Some (subnetMask other)) of
             Inl e \<Rightarrow> Inl e
           | Inr b \<Rightarrow> Inr (a = b)))"

definition isMulticast :: "Address4 \<Rightarrow> error + bool" where
  "isMulticast this = isInSubnet this (new_Address4 ''224.0.0.0/4'')"

section \<open>Notions used to state the properties\<close>

text \<open>A decimal group with its leading zeros removed; a group of zeros only is \<open>0\<close>.\<close>

definition strip_zeros :: "string \<Rightarrow> string" where
  "strip_zeros g =
     (if dropWhile (\<lambda>c. c = CHR ''0'') g = [] then ''0'' else dropWhile (\<lambda>c. c = CHR ''0'') g)"

text \<open>The \<open>k\<close> least significant digits of \<open>n\<close> in radix \<open>b\<close>, most significant first:
  a numeral of fixed width.\<close>

primrec fixed_digits :: "nat \<Rightarrow> nat \<Rightarrow> nat \<Rightarrow> string" where
  "fixed_digits b 0 n = []"
| "fixed_digits b (Suc k) n = fixed_digits b k (n div b) @ [digit_char (n mod b)]"

section \<open>Auxiliary lemmas\<close>

subsection \<open>Digits and their values\<close>

lemma digit_val_digit_char: "d < 36 \<Longrightarrow> digit_val (digit_char d) = Some d"
  by (simp add: digit_val_def digit_char_def Let_def)

lemma is_digit_digit_char: "d < b \<Longrightarrow> b \<le> 36 \<Longrightarrow> is_digit b (digit_char d)"
  by (simp add: is_digit_def digit_val_digit_char)

lemma is_digit_mono: "is_digit b c \<Longrightarrow> b \<le> b' \<Longrightarrow> is_digit b' c"
  by (auto simp: is_digit_def split: option.splits)

lemma digit_val_punct:
  "digit_val CHR ''.'' = None" "digit_val CHR ''/'' = None" "digit_val CHR '':'' = None"
  "digit_val CHR ''-'' = None" "digit_val CHR ''+'' = None"
  by (simp_all add: digit_val_def)

lemma is_digit_punct [simp]:
  "\<not> is_digit b CHR ''.''" "\<not> is_digit b CHR ''/''" "\<not> is_digit b CHR '':''"
  "\<not> is_digit b CHR ''-''" "\<not> is_digit b CHR ''+''"
  by (simp_all add: is_digit_def digit_val_punct)

lemma is_digit_16_x [simp]: "\<not> is_digit 16 CHR ''x''" "\<not> is_digit 16 CHR ''X''"
  by (simp_all add: is_digit_def digit_val_def)

lemma is_digit_10_x [simp]: "\<not> is_digit 10 CHR ''x''" "\<not> is_digit 10 CHR ''X''"
  by (simp_all add: is_digit_def digit_val_def)

lemma whitespace_no_digit: "is_whitespace c \<Longrightarrow> \<not> is_digit b c"
  by (auto simp: is_whitespace_def is_digit_def digit_val_def)

lemma digits_nonempty: "2 \<le> b \<Longrightarrow> digits b n \<noteq> []"
  by (subst digits.simps) simp

lemma digits_all:
  "2 \<le> b \<Longrightarrow> b \<le> 36 \<Longrightarrow> list_all (is_digit b) (digits b n)"
proof (induction b n rule: digits.induct)
  case (1 b n)
  show ?case
  proof (cases "n < b")
    case True
    with 1 show ?thesis
      by (subst digits.simps) (simp add: is_digit_digit_char)
  next
    case False
    with 1 show ?thesis
      by (subst digits.simps) (simp add: is_digit_digit_char)
  qed
qed

lemma radix_value_Nil [simp]: "radix_value b [] = 0"
  by (simp add: radix_value_def)

lemma radix_value_snoc:
  "radix_value b (s @ [c]) =
     (case digit_val c of Some d \<Rightarrow> radix_value b s * b + d | None \<Rightarrow> radix_value b s)"
  unfolding radix_value_def by simp

lemma radix_value_single: "radix_value b [c] = (case digit_val c of Some d \<Rightarrow> d | None \<Rightarrow> 0)"
  by (simp add: radix_value_def split: option.splits)

lemma radix_value_append:
  "list_all (is_digit b') t \<Longrightarrow>
     radix_value b (s @ t) = radix_value b s * b ^ length t + radix_value b t"
proof (induction t rule: rev_induct)
  case Nil
  show ?case by simp
next
  case (snoc c t)
  then obtain d where d: "digit_val c = Some d"
    by (auto simp: is_digit_def split: option.splits)
  from snoc have "radix_value b (s @ t) = radix_value b s * b ^ length t + radix_value b t"
    by simp
  then show ?case
    using radix_value_snoc [of b "s @ t" c] radix_value_snoc [of b t c] d
    by (simp add: algebra_simps)
qed

lemma radix_value_digits:
  "2 \<le> b \<Longrightarrow> b \<le> 36 \<Longrightarrow> radix_value b (digits b n) = n"
proof (induction b n rule: digits.induct)
  case (1 b n)
  show ?case
  proof (cases "n < b")
    case True
    with 1 show ?thesis
      by (subst digits.simps) (simp add: radix_value_single digit_val_digit_char)
  next
    case False
    with 1 have "radix_value b (digits b (n div b)) = n div b"
      by simp
    moreover from 1 have "n mod b < b"
      by simp
    with 1 have "n mod b < 36"
      by linarith
    ultimately show ?thesis
      using 1 False
      by (subst digits.simps) (simp add: radix_value_snoc digit_val_digit_char)
  qed
qed

lemma length_digits_le:
  "2 \<le> b \<Longrightarrow> n < b ^ k \<Longrightarrow> 0 < k \<Longrightarrow> length (digits b n) \<le> k"
proof (induction b n arbitrary: k rule: digits.induct)
  case (1 b n)
  show ?case
  proof (cases "n < b")
    case True
    with 1 show ?thesis
      by (subst digits.simps) simp
  next
    case False
    with 1 have "1 < k"
      by (cases "k = 1") auto
    then obtain j where k: "k = Suc j" and j: "0 < j"
      by (cases k) auto
    from 1(3) k have "n div b < b ^ j"
      by (simp add: less_mult_imp_div_less mult.commute)
    with 1 False j have "length (digits b (n div b)) \<le> j"
      by simp
    with 1 False k show ?thesis
      by (subst digits.simps) simp
  qed
qed

subsection \<open>parseInt and ToString on digit strings\<close>

lemma dropWhile_whitespace_digits:
  "list_all (is_digit b) s \<Longrightarrow> dropWhile is_whitespace s = s"
  by (cases s) (auto dest: whitespace_no_digit)

lemma takeWhile_digits: "list_all (is_digit b) s \<Longrightarrow> takeWhile (is_digit b) s = s"
  by (simp add: list_all_iff)

lemma take1_digits:
  "list_all (is_digit b) s \<Longrightarrow> take 1 s \<noteq> ''-'' \<and> take 1 s \<noteq> ''+''"
  by (cases s) auto

lemma take2_digits_16:
  "list_all (is_digit 16) s \<Longrightarrow> take 2 s \<noteq> ''0x'' \<and> take 2 s \<noteq> ''0X''"
proof (cases s)
  case Nil
  then show ?thesis by simp
next
  case (Cons c t)
  assume "list_all (is_digit 16) s"
  with Cons show ?thesis by (cases t) auto
qed

lemma parseInt_10_digits:
  "s \<noteq> [] \<Longrightarrow> list_all (is_digit 10) s \<Longrightarrow> parseInt s 10 = Num (int (radix_value 10 s))"
  using take1_digits [of 10 s]
  by (simp add: parseInt_def dropWhile_whitespace_digits takeWhile_digits)

lemma parseInt_16_digits:
  "s \<noteq> [] \<Longrightarrow> list_all (is_digit 16) s \<Longrightarrow> parseInt s 16 = Num (int (radix_value 16 s))"
  using take1_digits [of 16 s] take2_digits_16 [of s]
  by (simp add: parseInt_def dropWhile_whitespace_digits takeWhile_digits)

lemma ToString_nat: "ToString (Num (int n)) = digits 10 n"
  by (simp add: ToString_def int_toString_def)

lemma parseInt_digits_10: "parseInt (digits 10 n) 10 = Num (int n)"
  by (simp add: parseInt_10_digits digits_nonempty digits_all radix_value_digits)

lemma octet_digits: "v \<le> 255 \<Longrightarrow> octet (digits 10 v)"
proof -
  assume v: "v \<le> 255"
  then have "v < 10 ^ 3" by simp
  then have "length (digits 10 v) \<le> 3"
    by (rule length_digits_le [rotated]) simp_all
  moreover have "1 \<le> length (digits 10 v)"
    using digits_nonempty [of 10 v] by (cases "digits 10 v") simp_all
  ultimately show ?thesis
    using v by (simp add: octet_def digits_all radix_value_digits)
qed

lemma digits_no_sep:
  "2 \<le> b \<Longrightarrow> b \<le> 36 \<Longrightarrow> CHR ''.'' \<notin> set (digits b n) \<and> CHR ''/'' \<notin> set (digits b n)
     \<and> CHR '':'' \<notin> set (digits b n)"
  using digits_all [of b n] by (auto simp: list_all_iff)

subsection \<open>split and join\<close>

lemma split_str_no_sep: "sep \<notin> set s \<Longrightarrow> split_str sep s = [s]"
  by (induction s) auto

lemma split_str_append:
  "sep \<notin> set x \<Longrightarrow> split_str sep (x @ sep # r) = x # split_str sep r"
  by (induction x) auto

lemma split_str_nonempty: "split_str sep s \<noteq> []"
  by (induction s) (auto split: list.splits)

lemma split_str_join:
  "xs \<noteq> [] \<Longrightarrow> list_all (\<lambda>x. sep \<notin> set x) xs \<Longrightarrow> split_str sep (join [sep] xs) = xs"
proof (induction "[sep]" xs rule: join.induct)
  case 1
  then show ?case by simp
next
  case (2 x)
  then show ?case by (simp add: split_str_no_sep)
next
  case (3 x y ys)
  then show ?case by (simp add: split_str_append)
qed

lemma join_split_str: "join [sep] (split_str sep s) = s"
proof (induction s)
  case Nil
  show ?case by simp
next
  case (Cons c s)
  show ?case
  proof (cases "c = sep")
    case True
    with Cons show ?thesis
      by (cases "split_str sep s") (simp_all add: split_str_nonempty)
  next
    case False
    obtain g gs where g: "split_str sep s = g # gs"
      using split_str_nonempty [of sep s] by (cases "split_str sep s") auto
    with Cons False show ?thesis
      by (cases gs) simp_all
  qed
qed

lemma length_split_str: "length (split_str sep s) = Suc (count_list s sep)"
  by (induction s) (auto split: list.splits simp: split_str_nonempty)

lemma split_str_parts_no_sep: "list_all (\<lambda>g. sep \<notin> set g) (split_str sep s)"
  by (induction s) (auto split: list.splits)

subsection \<open>The subnet suffix\<close>

lemma exec_suffix:
  assumes "ds \<noteq> []" and "list_all (is_digit 10) ds"
  shows "RE_SUBNET_STRING_exec (p @ CHR ''/'' # ds) = Some (CHR ''/'' # ds)"
proof -
  have r: "rev (p @ CHR ''/'' # ds) = rev ds @ CHR ''/'' # rev p"
    by simp
  have all: "\<forall>c \<in> set (rev ds). is_digit 10 c"
    using assms(2) by (simp add: list_all_iff)
  have t: "takeWhile (is_digit 10) (rev ds @ CHR ''/'' # rev p) = rev ds"
    using all by (subst takeWhile_append2) auto
  have d: "dropWhile (is_digit 10) (rev ds @ CHR ''/'' # rev p) = CHR ''/'' # rev p"
    using all by (subst dropWhile_append2) auto
  show ?thesis
    unfolding RE_SUBNET_STRING_exec_def r t d using assms(1) by (simp add: Let_def)
qed

lemma exec_SomeD:
  assumes "RE_SUBNET_STRING_exec s = Some m"
  shows "\<exists>p ds. s = p @ CHR ''/'' # ds \<and> m = CHR ''/'' # ds \<and> ds \<noteq> [] \<and> list_all (is_digit 10) ds"
proof -
  let ?t = "takeWhile (is_digit 10) (rev s)"
  let ?d = "dropWhile (is_digit 10) (rev s)"
  from assms have ne: "?t \<noteq> []" and sl: "take 1 ?d = ''/''" and m: "m = CHR ''/'' # rev ?t"
    by (auto simp: RE_SUBNET_STRING_exec_def Let_def split: if_splits)
  from sl obtain q where q: "?d = CHR ''/'' # q"
    by (cases ?d) auto
  have "rev s = ?t @ ?d"
    by simp
  then have "s = rev ?d @ rev ?t"
    by (metis rev_append rev_rev_ident)
  with q have "s = rev q @ CHR ''/'' # rev ?t"
    by simp
  moreover have "list_all (is_digit 10) (rev ?t)"
    by (simp add: list_all_iff) (meson set_takeWhileD)
  ultimately show ?thesis
    using ne m by blast
qed

lemma exec_no_slash: "CHR ''/'' \<notin> set s \<Longrightarrow> RE_SUBNET_STRING_exec s = None"
  by (cases "RE_SUBNET_STRING_exec s") (auto dest: exec_SomeD)

lemma replace_suffix:
  assumes "ds \<noteq> []" and "list_all (is_digit 10) ds"
  shows "RE_SUBNET_STRING_replace (p @ CHR ''/'' # ds) = p"
  by (simp add: RE_SUBNET_STRING_replace_def exec_suffix [OF assms])

subsection \<open>The constructor\<close>

lemma constructor_parse_fields:
  "constructor_parse this a =
     this\<lparr>addressMinusSuffix := Some a,
          valid := (if RE_ADDRESS_match a then True else valid this),
          error := (if RE_ADDRESS_match a then error this else Some ''Invalid IPv4 address.''),
          parsedAddress := split_str CHR ''.'' a\<rparr>"
  by (simp add: constructor_parse_def parse_def Let_def)

lemma new_Address4_plain:
  "RE_SUBNET_STRING_exec s = None \<Longrightarrow>
   new_Address4 s =
     \<lparr>address = s, addressMinusSuffix = Some s,
      error = (if RE_ADDRESS_match s then None else Some ''Invalid IPv4 address.''),
      groups = 4, parsedAddress = split_str CHR ''.'' s, parsedSubnet = '''',
      subnet = ''/32'', subnetMask = Num 32, v4 = True, valid = RE_ADDRESS_match s\<rparr>"
  by (simp add: new_Address4_def constructor_parse_fields Address4_fields_def GROUPS_def)

lemma new_Address4_suffix:
  assumes "ds \<noteq> []" and "list_all (is_digit 10) ds"
  shows "new_Address4 (p @ CHR ''/'' # ds) =
     (if 32 < radix_value 10 ds
      then \<lparr>address = p @ CHR ''/'' # ds, addressMinusSuffix = None,
            error = Some ''Invalid subnet mask.'', groups = 4, parsedAddress = [],
            parsedSubnet = ds, subnet = CHR ''/'' # digits 10 (radix_value 10 ds),
            subnetMask = Num (int (radix_value 10 ds)), v4 = True, valid = False\<rparr>
      else \<lparr>address = p @ CHR ''/'' # ds, addressMinusSuffix = Some p,
            error = (if RE_ADDRESS_match p then None else Some ''Invalid IPv4 address.''),
            groups = 4, parsedAddress = split_str CHR ''.'' p,
            parsedSubnet = ds, subnet = CHR ''/'' # digits 10 (radix_value 10 ds),
            subnetMask = Num (int (radix_value 10 ds)), v4 = True,
            valid = RE_ADDRESS_match p\<rparr>)"
  by (simp add: new_Address4_def exec_suffix [OF assms] replace_suffix [OF assms]
      parseInt_10_digits [OF assms] ToString_nat constructor_parse_fields
      Address4_fields_def GROUPS_def BITS_def)

subsection \<open>What the constructor leaves in the fields\<close>

lemma new_Address4_cases:
  obtains (plain) "RE_SUBNET_STRING_exec s = None"
  | (suffix) p ds where "s = p @ CHR ''/'' # ds" "ds \<noteq> []" "list_all (is_digit 10) ds"
proof (cases "RE_SUBNET_STRING_exec s")
  case None
  then show ?thesis by (rule plain)
next
  case (Some m)
  then show ?thesis using exec_SomeD [of s m] suffix by blast
qed

lemma parsed_fields:
  assumes "addressMinusSuffix (new_Address4 s) = Some a"
  shows "parsedAddress (new_Address4 s) = split_str CHR ''.'' a
       \<and> valid (new_Address4 s) = RE_ADDRESS_match a
       \<and> error (new_Address4 s) = (if RE_ADDRESS_match a then None else Some ''Invalid IPv4 address.'')"
proof (cases s rule: new_Address4_cases)
  case plain
  with assms show ?thesis by (simp add: new_Address4_plain)
next
  case (suffix p ds)
  with assms show ?thesis
    by (simp add: new_Address4_suffix split: if_splits)
qed

lemma unparsed_fields:
  assumes "addressMinusSuffix (new_Address4 s) = None"
  shows "\<not> valid (new_Address4 s) \<and> error (new_Address4 s) = Some ''Invalid subnet mask.''
       \<and> parsedAddress (new_Address4 s) = []"
proof (cases s rule: new_Address4_cases)
  case plain
  with assms show ?thesis by (simp add: new_Address4_plain)
next
  case (suffix p ds)
  with assms show ?thesis
    by (simp add: new_Address4_suffix split: if_splits)
qed

lemma valid_fields:
  assumes "valid (new_Address4 s)"
  shows "\<exists>a m. addressMinusSuffix (new_Address4 s) = Some a \<and> RE_ADDRESS_match a
           \<and> parsedAddress (new_Address4 s) = split_str CHR ''.'' a
           \<and> subnetMask (new_Address4 s) = Num (int m) \<and> m \<le> 32"
proof (cases s rule: new_Address4_cases)
  case plain
  with assms show ?thesis
    by (simp add: new_Address4_plain)
next
  case (suffix p ds)
  with assms show ?thesis
    by (simp add: new_Address4_suffix split: if_splits)
qed

lemma match_groups:
  assumes "RE_ADDRESS_match a"
  obtains g0 g1 g2 g3 where "split_str CHR ''.'' a = [g0, g1, g2, g3]"
    "octet g0" "octet g1" "octet g2" "octet g3"
proof -
  from assms have len: "length (split_str CHR ''.'' a) = 4"
    and all: "list_all octet (split_str CHR ''.'' a)"
    by (simp_all add: RE_ADDRESS_match_def)
  from len obtain g0 g1 g2 g3 where gs: "split_str CHR ''.'' a = [g0, g1, g2, g3]"
    by (auto simp: length_Suc_conv numeral_eq_Suc)
  with all that show ?thesis by simp
qed

subsection \<open>The canonical decimal form of a group\<close>

lemma char_of_48: "char_of (48::nat) = CHR ''0''"
  by (simp add: char_of_def bit_Suc_0_iff bit_numeral_simps)

lemma digit_char_0: "digit_char 0 = CHR ''0''"
  by (simp add: digit_char_def char_of_48)

lemma digit_val_0: "digit_val CHR ''0'' = Some 0"
  by (simp add: digit_val_def)

lemma digit_char_digit_val:
  "digit_val c = Some d \<Longrightarrow> d < 10 \<Longrightarrow> digit_char d = c"
  by (auto simp: digit_val_def digit_char_def Let_def split: if_splits)

lemma radix_value_Cons_0: "radix_value b (CHR ''0'' # g) = radix_value b g"
  by (simp add: radix_value_def digit_val_0)

lemma digits_0: "digits 10 0 = ''0''"
  by (subst digits.simps) (simp add: digit_char_0)

lemma digits_radix_value_no_leading_zero:
  "list_all (is_digit 10) g \<Longrightarrow> g \<noteq> [] \<Longrightarrow> hd g \<noteq> CHR ''0''
     \<Longrightarrow> digits 10 (radix_value 10 g) = g"
proof (induction g rule: rev_induct)
  case Nil
  then show ?case by simp
next
  case (snoc c t)
  from snoc.prems obtain d where d: "digit_val c = Some d" "d < 10"
    by (auto simp: is_digit_def split: option.splits)
  then have dc: "digit_char d = c"
    by (rule digit_char_digit_val)
  show ?case
  proof (cases "t = []")
    case True
    with d dc show ?thesis
      by (subst digits.simps) (simp add: radix_value_single)
  next
    case False
    with snoc have ih: "digits 10 (radix_value 10 t) = t" and hd: "hd t \<noteq> CHR ''0''"
      by auto
    have pos: "0 < radix_value 10 t"
    proof (rule ccontr)
      assume "\<not> 0 < radix_value 10 t"
      with ih have "t = ''0''" by (simp add: digits_0)
      with hd show False by simp
    qed
    have v: "radix_value 10 (t @ [c]) = radix_value 10 t * 10 + d"
      by (simp add: radix_value_snoc d)
    from pos d have "\<not> radix_value 10 t * 10 + d < 10"
      by simp
    then have "digits 10 (radix_value 10 t * 10 + d)
        = digits 10 ((radix_value 10 t * 10 + d) div 10) @ [digit_char ((radix_value 10 t * 10 + d) mod 10)]"
      by (subst digits.simps) simp
    with d ih dc v show ?thesis
      by simp
  qed
qed

lemma strip_zeros_Cons_0: "strip_zeros (CHR ''0'' # g) = strip_zeros g"
  by (simp add: strip_zeros_def)

lemma digits_radix_value:
  "list_all (is_digit 10) g \<Longrightarrow> digits 10 (radix_value 10 g) = strip_zeros g"
proof (induction g)
  case Nil
  show ?case by (simp add: digits_0 strip_zeros_def)
next
  case (Cons c g)
  show ?case
  proof (cases "c = CHR ''0''")
    case True
    with Cons show ?thesis
      by (simp add: radix_value_Cons_0 strip_zeros_Cons_0)
  next
    case False
    then have "strip_zeros (c # g) = c # g"
      by (simp add: strip_zeros_def)
    with Cons.prems False show ?thesis
      using digits_radix_value_no_leading_zero [of "c # g"] by simp
  qed
qed

lemma octet_canonical:
  "octet g \<Longrightarrow> ToString (parseInt g 10) = strip_zeros g"
proof -
  assume o: "octet g"
  then have "g \<noteq> []" and "list_all (is_digit 10) g"
    by (auto simp: octet_def)
  then show ?thesis
    by (simp add: parseInt_10_digits ToString_nat digits_radix_value)
qed

lemma map_canonical:
  "list_all octet gs \<Longrightarrow> map (\<lambda>part. ToString (parseInt part 10)) gs = map strip_zeros gs"
  by (induction gs) (simp_all add: octet_canonical)

subsection \<open>Numerals of fixed width\<close>

lemma length_fixed_digits [simp]: "length (fixed_digits b k n) = k"
  by (induction k arbitrary: n) simp_all

lemma fixed_digits_all:
  "2 \<le> b \<Longrightarrow> b \<le> 36 \<Longrightarrow> list_all (is_digit b) (fixed_digits b k n)"
proof (induction k arbitrary: n)
  case 0
  show ?case by simp
next
  case (Suc k)
  then have "n mod b < b" by simp
  with Suc show ?case by (simp add: is_digit_digit_char)
qed

lemma fixed_digits_zero: "fixed_digits b k 0 = replicate k CHR ''0''"
  by (induction k) (simp_all add: digit_char_0 replicate_append_same)

lemma fixed_digits_add:
  "fixed_digits b (j + k) n = fixed_digits b j (n div b ^ k) @ fixed_digits b k n"
proof (induction k arbitrary: n)
  case 0
  show ?case by simp
next
  case (Suc k)
  have "n div b div b ^ k = n div b ^ Suc k"
    by (simp add: div_mult2_eq)
  with Suc [of "n div b"] show ?case by simp
qed

lemma radix_value_fixed_digits:
  "2 \<le> b \<Longrightarrow> b \<le> 36 \<Longrightarrow> radix_value b (fixed_digits b k n) = n mod b ^ k"
proof (induction k arbitrary: n)
  case 0
  show ?case by simp
next
  case (Suc k)
  then have "n mod b < b"
    by simp
  with Suc.prems have "n mod b < 36"
    by linarith
  with Suc show ?case
    by (simp add: radix_value_snoc digit_val_digit_char mod_mult2_eq)
qed

lemma padStart_digits:
  "2 \<le> b \<Longrightarrow> n < b ^ k \<Longrightarrow> 0 < k \<Longrightarrow> padStart (digits b n) k CHR ''0'' = fixed_digits b k n"
proof (induction k arbitrary: n)
  case 0
  then show ?case by simp
next
  case (Suc k)
  show ?case
  proof (cases "n < b")
    case True
    with Suc.prems show ?thesis
      by (subst digits.simps) (simp add: padStart_def fixed_digits_zero)
  next
    case False
    with Suc.prems have k: "0 < k"
      by (cases "k = 0") auto
    from Suc.prems have "n div b < b ^ k"
      by (simp add: less_mult_imp_div_less mult.commute)
    with Suc k have ih: "padStart (digits b (n div b)) k CHR ''0'' = fixed_digits b k (n div b)"
      by simp
    have "padStart (digits b n) (Suc k) CHR ''0''
        = padStart (digits b (n div b)) k CHR ''0'' @ [digit_char (n mod b)]"
      using False Suc.prems by (subst digits.simps) (simp add: padStart_def)
    with ih show ?thesis by simp
  qed
qed

lemma padStart_long: "n \<le> length s \<Longrightarrow> padStart s n c = s"
  by (simp add: padStart_def)

lemma length_padStart: "length (padStart s n c) = max n (length s)"
  by (simp add: padStart_def)

subsection \<open>fromHex\<close>

lemma slice_take_drop:
  "i + k \<le> length s \<Longrightarrow> slice s (Num (int i)) (Num (int i + int k)) = take k (drop i s)"
  by (simp add: slice_def slice_index_def Let_def min_def nat_add_distrib)

lemma fromHex_loop_unfold:
  "fromHex_loop p 0 [] =
     [parseInt (slice p (Num 0) (Num 2)) 16, parseInt (slice p (Num 2) (Num 4)) 16,
      parseInt (slice p (Num 4) (Num 6)) 16, parseInt (slice p (Num 6) (Num 8)) 16]"
  by (simp add: fromHex_loop.simps)

lemma fromHex_loop_groups:
  assumes "8 \<le> length p"
  shows "fromHex_loop p 0 [] =
     [parseInt (take 2 p) 16, parseInt (take 2 (drop 2 p)) 16,
      parseInt (take 2 (drop 4 p)) 16, parseInt (take 2 (drop 6 p)) 16]"
proof -
  have "slice p (Num 0) (Num 2) = take 2 p"
    using slice_take_drop [of 0 2 p] assms by simp
  moreover have "slice p (Num 2) (Num 4) = take 2 (drop 2 p)"
    using slice_take_drop [of 2 2 p] assms by simp
  moreover have "slice p (Num 4) (Num 6) = take 2 (drop 4 p)"
    using slice_take_drop [of 4 2 p] assms by simp
  moreover have "slice p (Num 6) (Num 8) = take 2 (drop 6 p)"
    using slice_take_drop [of 6 2 p] assms by simp
  ultimately show ?thesis
    by (simp add: fromHex_loop_unfold)
qed

lemma fromHex_groups:
  "fromHex h =
     new_Address4 (join ''.'' (map ToString
       [parseInt (take 2 (padStart (filter (\<lambda>c. c \<noteq> CHR '':'') h) 8 CHR ''0'')) 16,
        parseInt (take 2 (drop 2 (padStart (filter (\<lambda>c. c \<noteq> CHR '':'') h) 8 CHR ''0''))) 16,
        parseInt (take 2 (drop 4 (padStart (filter (\<lambda>c. c \<noteq> CHR '':'') h) 8 CHR ''0''))) 16,
        parseInt (take 2 (drop 6 (padStart (filter (\<lambda>c. c \<noteq> CHR '':'') h) 8 CHR ''0''))) 16]))"
proof -
  have "8 \<le> length (padStart (filter (\<lambda>c. c \<noteq> CHR '':'') h) 8 CHR ''0'')"
    by (simp add: length_padStart)
  then show ?thesis
    unfolding fromHex_def Let_def by (simp only: fromHex_loop_groups)
qed

subsection \<open>Addresses built from four bytes\<close>

lemma set_join: "c \<in> set (join sep xs) \<Longrightarrow> c \<in> set sep \<or> (\<exists>x \<in> set xs. c \<in> set x)"
  by (induction sep xs rule: join.induct) auto

lemma exec_join_digits: "RE_SUBNET_STRING_exec (join ''.'' (map (digits 10) vs)) = None"
proof (rule exec_no_slash, rule notI)
  assume "CHR ''/'' \<in> set (join ''.'' (map (digits 10) vs))"
  then have "\<exists>x \<in> set (map (digits 10) vs). CHR ''/'' \<in> set x"
    using set_join [of "CHR ''/''" "''.''"] by fastforce
  then show False
    using digits_no_sep [of 10] by auto
qed

lemma split_join_digits:
  "vs \<noteq> [] \<Longrightarrow> split_str CHR ''.'' (join ''.'' (map (digits 10) vs)) = map (digits 10) vs"
  using digits_no_sep [of 10]
  by (intro split_str_join) (auto simp: list_all_iff)

lemma new_Address4_bytes:
  assumes "v0 \<le> 255" "v1 \<le> 255" "v2 \<le> 255" "v3 \<le> 255"
  shows "new_Address4 (join ''.'' (map (digits 10) [v0, v1, v2, v3])) =
     \<lparr>address = join ''.'' (map (digits 10) [v0, v1, v2, v3]),
      addressMinusSuffix = Some (join ''.'' (map (digits 10) [v0, v1, v2, v3])),
      error = None, groups = 4, parsedAddress = map (digits 10) [v0, v1, v2, v3],
      parsedSubnet = '''', subnet = ''/32'', subnetMask = Num 32, v4 = True, valid = True\<rparr>"
proof -
  have sp: "split_str CHR ''.'' (join ''.'' (map (digits 10) [v0, v1, v2, v3]))
      = map (digits 10) [v0, v1, v2, v3]"
    by (rule split_join_digits) simp
  have "RE_ADDRESS_match (join ''.'' (map (digits 10) [v0, v1, v2, v3]))"
    unfolding RE_ADDRESS_match_def sp using assms by (simp add: octet_digits)
  then show ?thesis
    using new_Address4_plain [OF exec_join_digits, of "[v0, v1, v2, v3]"] sp by simp
qed

lemma toArray_bytes:
  assumes "v0 \<le> 255" "v1 \<le> 255" "v2 \<le> 255" "v3 \<le> 255"
  shows "toArray (new_Address4 (join ''.'' (map (digits 10) [v0, v1, v2, v3])))
     = [Num (int v0), Num (int v1), Num (int v2), Num (int v3)]"
  unfolding toArray_def new_Address4_bytes [OF assms]
  by (simp add: parseInt_digits_10)

lemma correctForm_bytes:
  assumes "v0 \<le> 255" "v1 \<le> 255" "v2 \<le> 255" "v3 \<le> 255"
  shows "correctForm (new_Address4 (join ''.'' (map (digits 10) [v0, v1, v2, v3])))
     = join ''.'' (map (digits 10) [v0, v1, v2, v3])"
  unfolding correctForm_def new_Address4_bytes [OF assms]
  by (simp add: parseInt_digits_10 ToString_nat)

subsection \<open>fromHex on eight hexadecimal digits\<close>

lemma parseInt_hex_pair: "parseInt (fixed_digits 16 2 v) 16 = Num (int (v mod 256))"
proof -
  have "fixed_digits 16 2 v \<noteq> []"
    using length_fixed_digits [of 16 2 v] by fastforce
  moreover have "list_all (is_digit 16) (fixed_digits 16 2 v)"
    by (rule fixed_digits_all) simp_all
  ultimately show ?thesis
    by (simp add: parseInt_16_digits radix_value_fixed_digits)
qed

lemma filter_colon_digits:
  "list_all (is_digit b) s \<Longrightarrow> filter (\<lambda>c. c \<noteq> CHR '':'') s = s"
  by (induction s) auto

lemma fromHex_pairs:
  "fromHex (fixed_digits 16 2 v0 @ fixed_digits 16 2 v1 @ fixed_digits 16 2 v2 @ fixed_digits 16 2 v3)
     = new_Address4 (join ''.'' (map (digits 10) [v0 mod 256, v1 mod 256, v2 mod 256, v3 mod 256]))"
proof -
  let ?h = "fixed_digits 16 2 v0 @ fixed_digits 16 2 v1 @ fixed_digits 16 2 v2 @ fixed_digits 16 2 v3"
  have "list_all (is_digit 16) ?h"
    by (simp add: fixed_digits_all)
  then have f: "filter (\<lambda>c. c \<noteq> CHR '':'') ?h = ?h"
    by (rule filter_colon_digits)
  have p: "padStart ?h 8 CHR ''0'' = ?h"
    by (rule padStart_long) simp
  show ?thesis
    unfolding fromHex_groups f p
    by (simp add: parseInt_hex_pair ToString_nat)
qed

lemma fixed_digits_8_pairs:
  "fixed_digits 16 8 n =
     fixed_digits 16 2 (n div 2 ^ 24) @ fixed_digits 16 2 (n div 2 ^ 16)
       @ fixed_digits 16 2 (n div 2 ^ 8) @ fixed_digits 16 2 n"
proof -
  have a: "fixed_digits 16 (6 + 2) n = fixed_digits 16 6 (n div 16 ^ 2) @ fixed_digits 16 2 n"
    by (rule fixed_digits_add)
  have b: "fixed_digits 16 (4 + 2) (n div 16 ^ 2)
      = fixed_digits 16 4 (n div 16 ^ 2 div 16 ^ 2) @ fixed_digits 16 2 (n div 16 ^ 2)"
    by (rule fixed_digits_add)
  have c: "fixed_digits 16 (2 + 2) (n div 16 ^ 2 div 16 ^ 2)
      = fixed_digits 16 2 (n div 16 ^ 2 div 16 ^ 2 div 16 ^ 2) @ fixed_digits 16 2 (n div 16 ^ 2 div 16 ^ 2)"
    by (rule fixed_digits_add)
  have d2: "n div 256 div 256 = n div 65536"
    using div_mult2_eq [of n 256 256] by simp
  have d3: "n div 65536 div 256 = n div 16777216"
    using div_mult2_eq [of n 65536 256] by simp
  from a b c show ?thesis
    by (simp add: d2 d3)
qed

lemma int_toString_nat: "int_toString (int n) b = digits b n"
  by (simp add: int_toString_def)


lemma fromInteger_bytes:
  assumes "n < 2 ^ 32"
  shows "fromInteger (Num (int n)) =
     new_Address4 (join ''.'' (map (digits 10)
       [n div 2 ^ 24, n div 2 ^ 16 mod 256, n div 2 ^ 8 mod 256, n mod 256]))"
proof -
  have "(16::nat) ^ 8 = 2 ^ 32" by simp
  with assms have "n < 16 ^ 8" by simp
  then have p: "padStart (digits 16 n) 8 CHR ''0'' = fixed_digits 16 8 n"
    by (intro padStart_digits) simp_all
  have "list_all (is_digit 16) (digits 16 n)"
    by (rule digits_all) simp_all
  then have f: "filter (\<lambda>c. c \<noteq> CHR '':'') (digits 16 n) = digits 16 n"
    by (rule filter_colon_digits)
  have "fromHex (digits 16 n) = fromHex (fixed_digits 16 8 n)"
  proof -
    have "list_all (is_digit 16) (fixed_digits 16 8 n)"
      by (rule fixed_digits_all) simp_all
    then have f8: "filter (\<lambda>c. c \<noteq> CHR '':'') (fixed_digits 16 8 n) = fixed_digits 16 8 n"
      by (rule filter_colon_digits)
    have p8: "padStart (fixed_digits 16 8 n) 8 CHR ''0'' = fixed_digits 16 8 n"
      by (rule padStart_long) simp
    show ?thesis
      unfolding fromHex_groups f p f8 p8 ..
  qed
  moreover from assms have "n div 2 ^ 24 < 256"
    by (simp add: less_mult_imp_div_less)
  ultimately show ?thesis
    by (simp add: fromInteger_def int_toString_nat fixed_digits_8_pairs fromHex_pairs)
qed

subsection \<open>The leading digits of a numeral\<close>

lemma length_digits_gt:
  "2 \<le> b \<Longrightarrow> b ^ k \<le> n \<Longrightarrow> k < length (digits b n)"
proof (induction b n arbitrary: k rule: digits.induct)
  case (1 b n)
  show ?case
  proof (cases "n < b")
    case True
    have "k = 0"
    proof (rule ccontr)
      assume "k \<noteq> 0"
      with 1(2) have "b \<le> b ^ k"
        by (intro self_le_power) simp_all
      with 1(3) True show False
        by linarith
    qed
    with 1 True show ?thesis
      by (subst digits.simps) simp
  next
    case False
    show ?thesis
    proof (cases k)
      case 0
      with 1 False show ?thesis
        by (subst digits.simps) simp
    next
      case (Suc j)
      with 1 have "b ^ j \<le> n div b"
        by (simp add: less_eq_div_iff_mult_less_eq mult.commute)
      with 1 False have "j < length (digits b (n div b))"
        by simp
      with 1 False Suc show ?thesis
        by (subst digits.simps) simp
    qed
  qed
qed

lemma take_digits:
  "2 \<le> b \<Longrightarrow> 0 < k \<Longrightarrow> k \<le> length (digits b n) \<Longrightarrow>
     take k (digits b n) = digits b (n div b ^ (length (digits b n) - k))"
proof (induction b n arbitrary: k rule: digits.induct)
  case (1 b n)
  show ?case
  proof (cases "n < b")
    case True
    with 1 have l: "digits b n = [digit_char n]"
      by (subst digits.simps) simp
    with 1 show ?thesis by simp
  next
    case False
    with 1 have l: "digits b n = digits b (n div b) @ [digit_char (n mod b)]"
      by (subst digits.simps) simp
    show ?thesis
    proof (cases "k = length (digits b n)")
      case True
      then show ?thesis by simp
    next
      case ne: False
      with 1 l have k: "k \<le> length (digits b (n div b))"
        by simp
      with 1 False have "take k (digits b (n div b))
          = digits b (n div b div b ^ (length (digits b (n div b)) - k))"
        by simp
      moreover have "n div b div b ^ (length (digits b (n div b)) - k)
          = n div b ^ (length (digits b n) - k)"
        using k by (simp add: l div_mult2_eq Suc_diff_le)
      ultimately show ?thesis
        using k by (simp add: l)
    qed
  qed
qed

lemma filter_take_id:
  assumes "\<forall>c \<in> set p. P c"
  shows "filter P (take k p) = take k p"
proof (rule filter_True, rule ballI)
  fix x
  assume "x \<in> set (take k p)"
  then have "x \<in> set p"
    by (rule in_set_takeD)
  with assms show "P x"
    by blast
qed

lemma fromHex_take8:
  "fromHex (take 8 (padStart (filter (\<lambda>c. c \<noteq> CHR '':'') h) 8 CHR ''0'')) = fromHex h"
proof -
  let ?p = "padStart (filter (\<lambda>c. c \<noteq> CHR '':'') h) 8 CHR ''0''"
  have len: "8 \<le> length ?p"
    by (simp add: length_padStart)
  have "\<forall>c \<in> set ?p. c \<noteq> CHR '':''"
    by (auto simp: padStart_def)
  then have f: "filter (\<lambda>c. c \<noteq> CHR '':'') (take 8 ?p) = take 8 ?p"
    by (rule filter_take_id)
  have p: "padStart (take 8 ?p) 8 CHR ''0'' = take 8 ?p"
    using len by (intro padStart_long) simp
  show ?thesis
    apply (subst fromHex_groups [of h])
    apply (subst fromHex_groups)
    apply (simp only: f p)
    apply (simp add: drop_take)
    done
qed

subsection \<open>The four bytes of a 32-bit integer\<close>

lemma bytes_sum_nat:
  "(m div 2 ^ 24) * 2 ^ 24 + (m div 2 ^ 16 mod 256) * 2 ^ 16
     + (m div 2 ^ 8 mod 256) * 2 ^ 8 + m mod 256 = (m::nat)"
proof -
  have d1: "m div 65536 = m div 256 div 256"
    using div_mult2_eq [of m 256 256] by simp
  have d2: "m div 16777216 = m div 65536 div 256"
    using div_mult2_eq [of m 65536 256] by simp
  have e1: "m div 256 * 256 + m mod 256 = m"
    by (rule div_mult_mod_eq)
  have e2: "m div 65536 * 256 + m div 256 mod 256 = m div 256"
    unfolding d1 by (rule div_mult_mod_eq)
  have e3: "m div 16777216 * 256 + m div 65536 mod 256 = m div 65536"
    unfolding d2 by (rule div_mult_mod_eq)
  have "((m div 16777216 * 256 + m div 65536 mod 256) * 256 + m div 256 mod 256) * 256 + m mod 256 = m"
    unfolding e3 e2 e1 ..
  then show ?thesis
    by (simp add: algebra_simps)
qed

lemma toArray_fromInteger_nat:
  assumes "m < 2 ^ 32"
  shows "toArray (fromInteger (Num (int m))) =
      [Num (int (m div 2 ^ 24)), Num (int (m div 2 ^ 16 mod 256)),
       Num (int (m div 2 ^ 8 mod 256)), Num (int (m mod 256))]"
proof -
  from assms have "m div 2 ^ 24 < 256"
    by (simp add: less_mult_imp_div_less)
  then have b0: "m div 2 ^ 24 \<le> 255"
    by simp
  show ?thesis
    unfolding fromInteger_bytes [OF assms]
    by (rule toArray_bytes [OF b0]) simp_all
qed

subsection \<open>Valid addresses\<close>

lemma octet_parseInt: "octet g \<Longrightarrow> parseInt g 10 = Num (int (radix_value 10 g))"
  by (rule parseInt_10_digits) (auto simp: octet_def)

lemma octet_value: "octet g \<Longrightarrow> radix_value 10 g \<le> 255"
  by (simp add: octet_def)

lemma valid_groups:
  assumes "valid (new_Address4 s)"
  obtains g0 g1 g2 g3 m where "parsedAddress (new_Address4 s) = [g0, g1, g2, g3]"
    "octet g0" "octet g1" "octet g2" "octet g3"
    "subnetMask (new_Address4 s) = Num (int m)" "m \<le> 32"
proof -
  from valid_fields [OF assms] obtain a m where a: "RE_ADDRESS_match a"
    "parsedAddress (new_Address4 s) = split_str CHR ''.'' a"
    "subnetMask (new_Address4 s) = Num (int m)" "m \<le> 32"
    by blast
  from a(1) obtain g0 g1 g2 g3 where "split_str CHR ''.'' a = [g0, g1, g2, g3]"
    "octet g0" "octet g1" "octet g2" "octet g3"
    by (rule match_groups)
  with a that show ?thesis by simp
qed

subsection \<open>Hexadecimal pairs\<close>

lemma sprintf_02x_byte: "v \<le> 255 \<Longrightarrow> sprintf_02x (Num (int v)) = fixed_digits 16 2 v"
proof -
  assume v: "v \<le> 255"
  then have "nat (int v mod 2 ^ 32) = v"
    by simp
  moreover from v have "padStart (digits 16 v) 2 CHR ''0'' = fixed_digits 16 2 v"
    by (intro padStart_digits) simp_all
  ultimately show ?thesis
    by (simp add: sprintf_02x_def)
qed

lemma sprintf_02x_octet:
  "octet g \<Longrightarrow> sprintf_02x (parseInt g 10) = fixed_digits 16 2 (radix_value 10 g)"
  by (simp only: octet_parseInt sprintf_02x_byte octet_value)

lemma filter_colon_pair [simp]:
  "filter (\<lambda>c. c \<noteq> CHR '':'') (fixed_digits 16 2 v) = fixed_digits 16 2 v"
  by (rule filter_colon_digits [of 16]) (simp add: fixed_digits_all)

lemma fromHex_filter: "fromHex (filter (\<lambda>c. c \<noteq> CHR '':'') h) = fromHex h"
  apply (subst fromHex_groups [of h])
  apply (subst fromHex_groups)
  apply simp
  done

lemma radix_value_pairs:
  assumes "v0 \<le> 255" "v1 \<le> 255" "v2 \<le> 255" "v3 \<le> 255"
  shows "radix_value 16 (fixed_digits 16 2 v0 @ fixed_digits 16 2 v1 @ fixed_digits 16 2 v2
           @ fixed_digits 16 2 v3) = v0 * 2 ^ 24 + v1 * 2 ^ 16 + v2 * 2 ^ 8 + v3"
proof -
  have d: "list_all (is_digit 16) (fixed_digits 16 2 v)" for v
    by (rule fixed_digits_all) simp_all
  have v: "radix_value 16 (fixed_digits 16 2 v) = v" if "v \<le> 255" for v
    using that by (simp add: radix_value_fixed_digits)
  have 1: "radix_value 16 (fixed_digits 16 2 v2 @ fixed_digits 16 2 v3) = v2 * 256 + v3"
    using radix_value_append [OF d, of 16 "fixed_digits 16 2 v2" v3] assms by (simp add: v)
  have 2: "radix_value 16 (fixed_digits 16 2 v1 @ fixed_digits 16 2 v2 @ fixed_digits 16 2 v3)
      = v1 * 65536 + (v2 * 256 + v3)"
    using radix_value_append [of 16 "fixed_digits 16 2 v2 @ fixed_digits 16 2 v3" 16 "fixed_digits 16 2 v1"]
      assms by (simp add: v d 1)
  have 3: "radix_value 16 (fixed_digits 16 2 v0 @ fixed_digits 16 2 v1 @ fixed_digits 16 2 v2
           @ fixed_digits 16 2 v3) = v0 * 16777216 + (v1 * 65536 + (v2 * 256 + v3))"
    using radix_value_append [of 16 "fixed_digits 16 2 v1 @ fixed_digits 16 2 v2 @ fixed_digits 16 2 v3" 16 "fixed_digits 16 2 v0"]
      assms by (simp add: v d 2)
  then show ?thesis
    by simp
qed

lemma bigInteger_groups:
  assumes "valid a" and "parsedAddress a = [g0, g1, g2, g3]"
    and "octet g0" "octet g1" "octet g2" "octet g3"
  shows "bigInteger a = Some (BigInteger (fixed_digits 16 2 (radix_value 10 g0)
            @ fixed_digits 16 2 (radix_value 10 g1) @ fixed_digits 16 2 (radix_value 10 g2)
            @ fixed_digits 16 2 (radix_value 10 g3)) 16)"
    and "bigInteger a = Some (int (radix_value 10 g0 * 2 ^ 24 + radix_value 10 g1 * 2 ^ 16
            + radix_value 10 g2 * 2 ^ 8 + radix_value 10 g3))"
proof -
  show 1: "bigInteger a = Some (BigInteger (fixed_digits 16 2 (radix_value 10 g0)
            @ fixed_digits 16 2 (radix_value 10 g1) @ fixed_digits 16 2 (radix_value 10 g2)
            @ fixed_digits 16 2 (radix_value 10 g3)) 16)"
    using assms by (simp add: bigInteger_def sprintf_02x_octet)
  show "bigInteger a = Some (int (radix_value 10 g0 * 2 ^ 24 + radix_value 10 g1 * 2 ^ 16
            + radix_value 10 g2 * 2 ^ 8 + radix_value 10 g3))"
    unfolding 1 BigInteger_def
    using radix_value_pairs [OF octet_value [OF assms(3)] octet_value [OF assms(4)]
        octet_value [OF assms(5)] octet_value [OF assms(6)]]
    by (simp only:)
qed

lemma toHex_groups:
  assumes "parsedAddress a = [g0, g1, g2, g3]"
    and "octet g0" "octet g1" "octet g2" "octet g3"
  shows "fromHex (toHex a) = new_Address4 (join ''.'' (map (digits 10)
           [radix_value 10 g0, radix_value 10 g1, radix_value 10 g2, radix_value 10 g3]))"
proof -
  have "filter (\<lambda>c. c \<noteq> CHR '':'') (toHex a)
      = fixed_digits 16 2 (radix_value 10 g0) @ fixed_digits 16 2 (radix_value 10 g1)
        @ fixed_digits 16 2 (radix_value 10 g2) @ fixed_digits 16 2 (radix_value 10 g3)"
    using assms by (simp add: toHex_def sprintf_02x_octet)
  then have "fromHex (toHex a)
      = fromHex (fixed_digits 16 2 (radix_value 10 g0) @ fixed_digits 16 2 (radix_value 10 g1)
        @ fixed_digits 16 2 (radix_value 10 g2) @ fixed_digits 16 2 (radix_value 10 g3))"
    using fromHex_filter [of "toHex a"] by simp
  also have "\<dots> = new_Address4 (join ''.'' (map (digits 10)
           [radix_value 10 g0 mod 256, radix_value 10 g1 mod 256,
            radix_value 10 g2 mod 256, radix_value 10 g3 mod 256]))"
    by (rule fromHex_pairs)
  finally show ?thesis
    using assms(2-5) by (simp add: octet_def)
qed

subsection \<open>The binary form and the subnet bounds\<close>

lemma address_value_bound:
  assumes "v0 \<le> 255" "v1 \<le> 255" "v2 \<le> 255" "v3 \<le> 255"
  shows "v0 * 2 ^ 24 + v1 * 2 ^ 16 + v2 * 2 ^ 8 + v3 < (2::nat) ^ 32"
proof -
  from assms have "v0 * 2 ^ 24 \<le> 255 * 2 ^ 24" "v1 * 2 ^ 16 \<le> 255 * 2 ^ 16"
    "v2 * 2 ^ 8 \<le> 255 * 2 ^ 8"
    by simp_all
  with assms(4) show ?thesis
    by simp
qed

lemma valid_value:
  assumes "valid (new_Address4 s)"
  obtains N m where "bigInteger (new_Address4 s) = Some (int N)" "N < 2 ^ 32"
    "subnetMask (new_Address4 s) = Num (int m)" "m \<le> 32"
proof -
  from assms obtain g0 g1 g2 g3 m where g: "parsedAddress (new_Address4 s) = [g0, g1, g2, g3]"
    and o: "octet g0" "octet g1" "octet g2" "octet g3"
    and m: "subnetMask (new_Address4 s) = Num (int m)" "m \<le> 32"
    by (rule valid_groups)
  note v = octet_value [OF o(1)] octet_value [OF o(2)] octet_value [OF o(3)] octet_value [OF o(4)]
  show ?thesis
    using bigInteger_groups(2) [OF assms g o] address_value_bound [OF v] m
    by (rule that)
qed

lemma binaryZeroPad_value:
  assumes "bigInteger a = Some (int N)" and "N < 2 ^ 32"
  shows "binaryZeroPad a = Inr (fixed_digits 2 32 N)"
proof -
  from assms(2) have "padStart (digits 2 N) 32 CHR ''0'' = fixed_digits 2 32 N"
    by (intro padStart_digits) simp_all
  with assms(1) show ?thesis
    by (simp add: binaryZeroPad_def BigInteger_toString_def int_toString_nat BITS_def)
qed

lemma take_fixed_digits:
  "m \<le> k \<Longrightarrow> take m (fixed_digits b k n) = fixed_digits b m (n div b ^ (k - m))"
  using fixed_digits_add [of b m "k - m" n] by simp

lemma mask_bits_value:
  assumes "bigInteger a = Some (int N)" and "N < 2 ^ 32" and "m \<le> 32"
  shows "mask_bits a (Some (Num (int m))) = Inr (fixed_digits 2 m (N div 2 ^ (32 - m)))"
proof -
  have "slice (fixed_digits 2 32 N) (Num (int 0)) (Num (int 0 + int m)) = take m (drop 0 (fixed_digits 2 32 N))"
    using assms(3) by (intro slice_take_drop) simp
  then have "slice (fixed_digits 2 32 N) (Num 0) (Num (int m)) = take m (fixed_digits 2 32 N)"
    by simp
  with assms(3) show ?thesis
    by (simp add: mask_bits_def getBitsBase2_def binaryZeroPad_value [OF assms(1,2)]
        take_fixed_digits)
qed

lemma mask_bits_default:
  "subnetMask a = k \<Longrightarrow> mask_bits a None = mask_bits a (Some k)"
  by (simp add: mask_bits_def)

lemma concat_replicate_single: "concat (replicate k [c]) = replicate k c"
  by (induction k) simp_all

lemma repeat_char: "repeat [c] (Num (int k)) = replicate k c"
  by (simp add: concat_replicate_single)

lemma radix_value_zeros: "radix_value b (replicate k CHR ''0'') = 0"
  by (induction k) (simp_all add: radix_value_Cons_0)

lemma digit_val_1: "digit_val CHR ''1'' = Some 1"
  by (simp add: digit_val_def)

lemma radix_value_ones: "radix_value 2 (replicate k CHR ''1'') = 2 ^ k - 1"
proof (induction k)
  case 0
  show ?case by simp
next
  case (Suc k)
  have "replicate (Suc k) CHR ''1'' = replicate k CHR ''1'' @ ''1''"
    by (simp add: replicate_append_same)
  then have "radix_value 2 (replicate (Suc k) CHR ''1'') = (2 ^ k - 1) * 2 + 1"
    by (simp only: radix_value_snoc digit_val_1 Suc option.simps)
  also have "\<dots> = 2 ^ Suc k - 1"
  proof -
    have "1 \<le> (2::nat) ^ k"
      by simp
    then have "((2::nat) ^ k - 1) * 2 + 1 = 2 * 2 ^ k - 1"
      by linarith
    then show ?thesis
      by simp
  qed
  finally show ?case .
qed

lemma is_digit_2_bits: "is_digit 2 CHR ''0''" "is_digit 2 CHR ''1''"
  by (simp_all add: is_digit_def digit_val_def)

lemma radix_value_prefix_fill:
  assumes "x < 2 ^ m" and "c = CHR ''0'' \<or> c = CHR ''1''"
  shows "radix_value 2 (fixed_digits 2 m x @ replicate k c)
     = x * 2 ^ k + radix_value 2 (replicate k c)"
proof -
  from assms(2) have "list_all (is_digit 2) (replicate k c)"
    by (auto simp: list_all_iff is_digit_2_bits)
  then have "radix_value 2 (fixed_digits 2 m x @ replicate k c)
      = radix_value 2 (fixed_digits 2 m x) * 2 ^ length (replicate k c) + radix_value 2 (replicate k c)"
    by (rule radix_value_append)
  with assms(1) show ?thesis
    by (simp add: radix_value_fixed_digits)
qed

lemma prefix_less:
  assumes "N < (2::nat) ^ 32" and "m \<le> 32"
  shows "N div 2 ^ (32 - m) < 2 ^ m"
proof -
  from assms(2) have "(2::nat) ^ 32 = 2 ^ m * 2 ^ (32 - m)"
    by (simp add: power_add [symmetric])
  with assms(1) show ?thesis
    by (simp add: less_mult_imp_div_less)
qed

lemma helper_startAddress_value:
  assumes "bigInteger a = Some (int N)" and "N < 2 ^ 32"
    and "subnetMask a = Num (int m)" and "m \<le> 32"
  shows "helper_startAddress a = Inr (int (N div 2 ^ (32 - m) * 2 ^ (32 - m)))"
proof -
  have r: "repeat ''0'' (num_minus (Num BITS) (subnetMask a)) = replicate (32 - m) CHR ''0''"
    using assms(4) repeat_char [of "CHR ''0''" "32 - m"]
    by (simp add: assms(3) BITS_def of_nat_diff)
  show ?thesis
    unfolding helper_startAddress_def mask_bits_default [OF assms(3)]
      mask_bits_value [OF assms(1,2,4)] r
    using radix_value_prefix_fill [OF prefix_less [OF assms(2,4)], of "CHR ''0''" "32 - m"]
    by (simp add: BigInteger_def radix_value_zeros)
qed

lemma helper_endAddress_value:
  assumes "bigInteger a = Some (int N)" and "N < 2 ^ 32"
    and "subnetMask a = Num (int m)" and "m \<le> 32"
  shows "helper_endAddress a = Inr (int (N div 2 ^ (32 - m) * 2 ^ (32 - m) + (2 ^ (32 - m) - 1)))"
proof -
  have r: "repeat ''1'' (num_minus (Num BITS) (subnetMask a)) = replicate (32 - m) CHR ''1''"
    using assms(4) repeat_char [of "CHR ''1''" "32 - m"]
    by (simp add: assms(3) BITS_def of_nat_diff)
  show ?thesis
    unfolding helper_endAddress_def mask_bits_default [OF assms(3)]
      mask_bits_value [OF assms(1,2,4)] r
    using radix_value_prefix_fill [OF prefix_less [OF assms(2,4)], of "CHR ''1''" "32 - m"]
    by (simp add: BigInteger_def radix_value_ones)
qed

lemma subnet_bounds:
  assumes "N < (2::nat) ^ 32" and "m \<le> 32"
  shows "N div 2 ^ (32 - m) * 2 ^ (32 - m) \<le> N"
    and "N \<le> N div 2 ^ (32 - m) * 2 ^ (32 - m) + (2 ^ (32 - m) - 1)"
    and "N div 2 ^ (32 - m) * 2 ^ (32 - m) + (2 ^ (32 - m) - 1) < 2 ^ 32"
proof -
  let ?k = "32 - m"
  show "N div 2 ^ ?k * 2 ^ ?k \<le> N"
    by simp
  have "N mod 2 ^ ?k < 2 ^ ?k"
    by simp
  then have "N mod 2 ^ ?k \<le> 2 ^ ?k - 1"
    by linarith
  moreover have "N div 2 ^ ?k * 2 ^ ?k + N mod 2 ^ ?k = N"
    by (rule div_mult_mod_eq)
  ultimately show "N \<le> N div 2 ^ ?k * 2 ^ ?k + (2 ^ ?k - 1)"
    by linarith
  have "N div 2 ^ ?k < 2 ^ m"
    using assms by (rule prefix_less)
  then have "N div 2 ^ ?k + 1 \<le> 2 ^ m"
    by simp
  then have "(N div 2 ^ ?k + 1) * 2 ^ ?k \<le> 2 ^ m * 2 ^ ?k"
    by (rule mult_le_mono1)
  also from assms(2) have "(2::nat) ^ m * 2 ^ ?k = 2 ^ 32"
    by (simp add: power_add [symmetric])
  finally have "N div 2 ^ ?k * 2 ^ ?k + 2 ^ ?k \<le> 2 ^ 32"
    by (simp add: algebra_simps)
  moreover have "0 < (2::nat) ^ ?k"
    by simp
  ultimately show "N div 2 ^ ?k * 2 ^ ?k + (2 ^ ?k - 1) < 2 ^ 32"
    by linarith
qed

lemma fromBigInteger_nat: "fromBigInteger (int M) = fromInteger (Num (int M))"
  by (simp add: fromBigInteger_def BigInteger_toString_def int_toString_nat parseInt_digits_10)

lemma bigInteger_fromInteger:
  assumes "M < 2 ^ 32"
  shows "bigInteger (fromInteger (Num (int M))) = Some (int M)"
    and "valid (fromInteger (Num (int M)))"
proof -
  let ?b = "[M div 2 ^ 24, M div 2 ^ 16 mod 256, M div 2 ^ 8 mod 256, M mod 256]"
  from assms have "M div 2 ^ 24 < 256"
    by (simp add: less_mult_imp_div_less)
  then have b: "M div 2 ^ 24 \<le> 255" "M div 2 ^ 16 mod 256 \<le> 255" "M div 2 ^ 8 mod 256 \<le> 255"
    "M mod 256 \<le> 255"
    by simp_all
  have f: "fromInteger (Num (int M)) = new_Address4 (join ''.'' (map (digits 10) ?b))"
    using assms by (rule fromInteger_bytes)
  note r = new_Address4_bytes [OF b]
  show v: "valid (fromInteger (Num (int M)))"
    unfolding f r by simp
  have p: "parsedAddress (fromInteger (Num (int M))) = [digits 10 (M div 2 ^ 24),
      digits 10 (M div 2 ^ 16 mod 256), digits 10 (M div 2 ^ 8 mod 256), digits 10 (M mod 256)]"
    unfolding f r by simp
  have "bigInteger (fromInteger (Num (int M))) =
      Some (int (radix_value 10 (digits 10 (M div 2 ^ 24)) * 2 ^ 24
        + radix_value 10 (digits 10 (M div 2 ^ 16 mod 256)) * 2 ^ 16
        + radix_value 10 (digits 10 (M div 2 ^ 8 mod 256)) * 2 ^ 8
        + radix_value 10 (digits 10 (M mod 256))))"
    using v p by (rule bigInteger_groups(2)) (simp_all only: octet_digits b)
  then show "bigInteger (fromInteger (Num (int M))) = Some (int M)"
    unfolding radix_value_digits [of 10, simplified] bytes_sum_nat .
qed

subsection \<open>The four boundary addresses\<close>

lemma BigInteger_one: "BigInteger ''1'' 10 = 1"
  by (simp add: BigInteger_def radix_value_single digit_val_1)

lemma boundary_values:
  assumes "bigInteger a = Some (int N)" and "N < 2 ^ 32"
    and "subnetMask a = Num (int m)" and "m \<le> 32"
  shows "startAddress a = Inr (fromInteger (Num (int (N div 2 ^ (32 - m) * 2 ^ (32 - m)))))"
    and "endAddress a
      = Inr (fromInteger (Num (int (N div 2 ^ (32 - m) * 2 ^ (32 - m) + (2 ^ (32 - m) - 1)))))"
    and "startAddressExclusive a
      = Inr (fromInteger (Num (int (N div 2 ^ (32 - m) * 2 ^ (32 - m) + 1))))"
    and "endAddressExclusive a
      = Inr (fromBigInteger (int (N div 2 ^ (32 - m) * 2 ^ (32 - m) + (2 ^ (32 - m) - 1)) - 1))"
proof -
  note s = helper_startAddress_value [OF assms]
  note e = helper_endAddress_value [OF assms]
  show "startAddress a = Inr (fromInteger (Num (int (N div 2 ^ (32 - m) * 2 ^ (32 - m)))))"
    by (simp only: startAddress_def s sum.case fromBigInteger_nat)
  show "endAddress a
      = Inr (fromInteger (Num (int (N div 2 ^ (32 - m) * 2 ^ (32 - m) + (2 ^ (32 - m) - 1)))))"
    by (simp only: endAddress_def e sum.case fromBigInteger_nat)
  have "int (N div 2 ^ (32 - m) * 2 ^ (32 - m)) + 1 = int (N div 2 ^ (32 - m) * 2 ^ (32 - m) + 1)"
    by simp
  then show "startAddressExclusive a
      = Inr (fromInteger (Num (int (N div 2 ^ (32 - m) * 2 ^ (32 - m) + 1))))"
    by (simp only: startAddressExclusive_def Let_def s sum.case BigInteger_one fromBigInteger_nat)
  show "endAddressExclusive a
      = Inr (fromBigInteger (int (N div 2 ^ (32 - m) * 2 ^ (32 - m) + (2 ^ (32 - m) - 1)) - 1))"
    by (simp only: endAddressExclusive_def Let_def e sum.case BigInteger_one)
qed

lemmas digits_eval = digits.simps digit_char_def char_of_def bit_Suc_0_iff

lemmas octet_eval = octet_def is_digit_def digit_val_def radix_value_def

lemma fromInteger_2_32:
  "fromInteger (Num 4294967296) = new_Address4 ''16.0.0.0''"
proof -
  have d: "digits 16 4294967296 = ''100000000''"
    by (simp add: digits_eval)
  have "fromHex ''100000000''
      = fromHex (take 8 (padStart (filter (\<lambda>c. c \<noteq> CHR '':'') ''100000000'') 8 CHR ''0''))"
    by (rule fromHex_take8 [symmetric])
  also have "take 8 (padStart (filter (\<lambda>c. c \<noteq> CHR '':'') ''100000000'') 8 CHR ''0'') = ''10000000''"
    by (simp add: padStart_def)
  also have "''10000000'' = digits 16 268435456"
    by (simp add: digits_eval)
  also have "fromHex (digits 16 268435456) = fromInteger (Num (int 268435456))"
    by (simp add: fromInteger_def int_toString_def)
  also have "\<dots> = new_Address4 (join ''.'' (map (digits 10)
       [268435456 div 2 ^ 24, 268435456 div 2 ^ 16 mod 256, 268435456 div 2 ^ 8 mod 256, 268435456 mod 256]))"
    by (rule fromInteger_bytes) simp
  also have "join ''.'' (map (digits 10)
       [268435456 div 2 ^ 24, 268435456 div 2 ^ 16 mod 256, 268435456 div 2 ^ 8 mod 256, 268435456 mod 256])
      = ''16.0.0.0''"
    by (simp add: digits_eval)
  finally show ?thesis
    by (simp add: fromInteger_def int_toString_def d)
qed

lemma fromBigInteger_minus_one: "fromBigInteger (- 1) = new_Address4 ''0.0.0.-1''"
proof -
  have "BigInteger_toString (- 1) 10 = ''-1''"
    by (simp add: BigInteger_toString_def int_toString_def digits_eval)
  moreover have "parseInt ''-1'' 10 = Num (- 1)"
    by (simp add: parseInt_def is_whitespace_def octet_eval)
  moreover have "number_toString (Num (- 1)) 16 = ''-1''"
    by (simp add: int_toString_def digits_eval)
  moreover have "fromHex ''-1'' = new_Address4 ''0.0.0.-1''"
  proof -
    have p: "padStart (filter (\<lambda>c. c \<noteq> CHR '':'') ''-1'') 8 CHR ''0'' = ''000000-1''"
      by (simp add: padStart_def eval_nat_numeral)
    have g: "parseInt ''00'' 16 = Num 0" "parseInt ''-1'' 16 = Num (- 1)"
      by (simp_all add: parseInt_def is_whitespace_def octet_eval)
    have t: "ToString (Num 0) = ''0''" "ToString (Num (- 1)) = ''-1''"
      by (simp_all add: ToString_def int_toString_def digits_eval)
    show ?thesis
      unfolding fromHex_groups p by (simp add: g t)
  qed
  ultimately show ?thesis
    by (simp only: fromBigInteger_def fromInteger_def)
qed

lemma new_Address4_literals:
  "new_Address4 ''255.255.255.255'' =
     \<lparr>address = ''255.255.255.255'', addressMinusSuffix = Some ''255.255.255.255'',
      error = None, groups = 4, parsedAddress = [''255'', ''255'', ''255'', ''255''],
      parsedSubnet = '''', subnet = ''/32'', subnetMask = Num 32, v4 = True, valid = True\<rparr>"
  "new_Address4 ''0.0.0.0'' =
     \<lparr>address = ''0.0.0.0'', addressMinusSuffix = Some ''0.0.0.0'',
      error = None, groups = 4, parsedAddress = [''0'', ''0'', ''0'', ''0''],
      parsedSubnet = '''', subnet = ''/32'', subnetMask = Num 32, v4 = True, valid = True\<rparr>"
  "new_Address4 ''16.0.0.0'' =
     \<lparr>address = ''16.0.0.0'', addressMinusSuffix = Some ''16.0.0.0'',
      error = None, groups = 4, parsedAddress = [''16'', ''0'', ''0'', ''0''],
      parsedSubnet = '''', subnet = ''/32'', subnetMask = Num 32, v4 = True, valid = True\<rparr>"
  "new_Address4 ''0.0.0.-1'' =
     \<lparr>address = ''0.0.0.-1'', addressMinusSuffix = Some ''0.0.0.-1'',
      error = Some ''Invalid IPv4 address.'', groups = 4,
      parsedAddress = [''0'', ''0'', ''0'', ''-1''],
      parsedSubnet = '''', subnet = ''/32'', subnetMask = Num 32, v4 = True, valid = False\<rparr>"
  by (simp_all add: new_Address4_plain exec_no_slash RE_ADDRESS_match_def octet_eval)

subsection \<open>Two example addresses and the multicast block\<close>

lemma example_26:
  "valid (new_Address4 ''192.168.1.134/26'')"
  "bigInteger (new_Address4 ''192.168.1.134/26'') = Some (int 3232235910)"
  "subnetMask (new_Address4 ''192.168.1.134/26'') = Num (int 26)"
proof -
  have d: "''26'' \<noteq> []" "list_all (is_digit 10) ''26''"
    by (simp_all add: octet_eval)
  have o: "octet ''192''" "octet ''168''" "octet ''1''" "octet ''134''"
    by (simp_all add: octet_eval)
  have r: "radix_value 10 ''192'' = 192" "radix_value 10 ''168'' = 168"
    "radix_value 10 ''1'' = 1" "radix_value 10 ''134'' = 134" "radix_value 10 ''26'' = 26"
    by (simp_all add: octet_eval)
  have m: "RE_ADDRESS_match ''192.168.1.134''"
    by (simp add: RE_ADDRESS_match_def o)
  note n = new_Address4_suffix [OF d, of "''192.168.1.134''"]
  show v: "valid (new_Address4 ''192.168.1.134/26'')"
    using n m r by simp
  show "subnetMask (new_Address4 ''192.168.1.134/26'') = Num (int 26)"
    using n r by simp
  have p: "parsedAddress (new_Address4 ''192.168.1.134/26'') = [''192'', ''168'', ''1'', ''134'']"
    using n r by simp
  show "bigInteger (new_Address4 ''192.168.1.134/26'') = Some (int 3232235910)"
    using bigInteger_groups(2) [OF v p o] by (simp add: r)
qed

lemma multicast_block:
  "valid (new_Address4 ''224.0.0.0/4'')"
  "bigInteger (new_Address4 ''224.0.0.0/4'') = Some (int 3758096384)"
  "subnetMask (new_Address4 ''224.0.0.0/4'') = Num (int 4)"
proof -
  have d: "''4'' \<noteq> []" "list_all (is_digit 10) ''4''"
    by (simp_all add: octet_eval)
  have o: "octet ''224''" "octet ''0''"
    by (simp_all add: octet_eval)
  have r: "radix_value 10 ''224'' = 224" "radix_value 10 ''0'' = 0" "radix_value 10 ''4'' = 4"
    by (simp_all add: octet_eval)
  have m: "RE_ADDRESS_match ''224.0.0.0''"
    by (simp add: RE_ADDRESS_match_def o)
  note n = new_Address4_suffix [OF d, of "''224.0.0.0''"]
  show v: "valid (new_Address4 ''224.0.0.0/4'')"
    using n m r by simp
  show "subnetMask (new_Address4 ''224.0.0.0/4'') = Num (int 4)"
    using n r by simp
  have p: "parsedAddress (new_Address4 ''224.0.0.0/4'') = [''224'', ''0'', ''0'', ''0'']"
    using n r by simp
  show "bigInteger (new_Address4 ''224.0.0.0/4'') = Some (int 3758096384)"
    using bigInteger_groups(2) [OF v p o(1) o(2) o(2) o(2)] by (simp add: r)
qed

lemma fixed_digits_numeral:
  "fixed_digits b (numeral k) n = fixed_digits b (pred_numeral k) (n div b) @ [digit_char (n mod b)]"
  by (simp add: numeral_eq_Suc)

lemma fixed_digits_1: "fixed_digits b 1 n = [digit_char (n mod b)]"
  by simp

lemmas fixed_digits_eval = fixed_digits_numeral fixed_digits_1 digit_char_def char_of_def
  bit_Suc_0_iff

lemma fixed_digits_2_4_14: "fixed_digits 2 4 14 = ''1110''"
  by (simp add: fixed_digits_eval)

lemma multicast_block_bits:
  "binaryZeroPad (new_Address4 ''224.0.0.0/4'') = Inr ''11100000000000000000000000000000''"
proof -
  have "fixed_digits 2 32 3758096384 = ''11100000000000000000000000000000''"
    by (simp add: fixed_digits_eval)
  then show ?thesis
    using binaryZeroPad_value [OF multicast_block(2)] by simp
qed

lemma fixed_digits_inj:
  assumes "2 \<le> b" "b \<le> 36" "x < b ^ k" "y < b ^ k"
  shows "fixed_digits b k x = fixed_digits b k y \<longleftrightarrow> x = y"
proof
  assume "fixed_digits b k x = fixed_digits b k y"
  then have "radix_value b (fixed_digits b k x) = radix_value b (fixed_digits b k y)"
    by simp
  with assms show "x = y"
    by (simp add: radix_value_fixed_digits)
next
  assume "x = y"
  then show "fixed_digits b k x = fixed_digits b k y"
    by simp
qed

lemma isMulticast_value:
  assumes "bigInteger a = Some (int N)" and "N < 2 ^ 32"
  shows "isMulticast a = Inr (take 4 (fixed_digits 2 32 N) = ''1110'')"
    and "isMulticast a = Inr (N div 2 ^ 28 = 14)"
proof -
  have t: "take 4 (fixed_digits 2 32 N) = fixed_digits 2 4 (N div 2 ^ 28)"
    using take_fixed_digits [of 4 32 2 N] by simp
  have a: "mask_bits a (Some (Num (int 4))) = Inr (fixed_digits 2 4 (N div 2 ^ 28))"
    using mask_bits_value [OF assms, of 4] by simp
  have o: "mask_bits (new_Address4 ''224.0.0.0/4'') (Some (Num (int 4))) = Inr ''1110''"
    using mask_bits_value [OF multicast_block(2), of 4] by (simp add: fixed_digits_2_4_14)
  show 1: "isMulticast a = Inr (take 4 (fixed_digits 2 32 N) = ''1110'')"
    unfolding t by (simp only: isMulticast_def isInSubnet_def multicast_block(3) a o sum.case)
  from assms(2) have "N div 2 ^ 28 < 2 ^ 4"
    by (simp add: less_mult_imp_div_less)
  then have "fixed_digits 2 4 (N div 2 ^ 28) = fixed_digits 2 4 14 \<longleftrightarrow> N div 2 ^ 28 = 14"
    by (intro fixed_digits_inj) simp_all
  with 1 show "isMulticast a = Inr (N div 2 ^ 28 = 14)"
    by (simp only: t fixed_digits_2_4_14)
qed

subsection \<open>The dotted-decimal grammar, written out\<close>

lemma octet_no_dot: "octet g \<Longrightarrow> CHR ''.'' \<notin> set g"
  by (auto simp: octet_def list_all_iff)

lemma RE_ADDRESS_match_iff:
  "RE_ADDRESS_match a \<longleftrightarrow>
     (\<exists>g0 g1 g2 g3. a = g0 @ ''.'' @ g1 @ ''.'' @ g2 @ ''.'' @ g3
        \<and> octet g0 \<and> octet g1 \<and> octet g2 \<and> octet g3)"
proof
  assume "RE_ADDRESS_match a"
  then obtain g0 g1 g2 g3 where g: "split_str CHR ''.'' a = [g0, g1, g2, g3]"
    and o: "octet g0" "octet g1" "octet g2" "octet g3"
    by (rule match_groups)
  have "join ''.'' (split_str CHR ''.'' a) = a"
    by (rule join_split_str)
  with g have "a = g0 @ ''.'' @ g1 @ ''.'' @ g2 @ ''.'' @ g3"
    by simp
  with o show "\<exists>g0 g1 g2 g3. a = g0 @ ''.'' @ g1 @ ''.'' @ g2 @ ''.'' @ g3
        \<and> octet g0 \<and> octet g1 \<and> octet g2 \<and> octet g3"
    by blast
next
  assume "\<exists>g0 g1 g2 g3. a = g0 @ ''.'' @ g1 @ ''.'' @ g2 @ ''.'' @ g3
        \<and> octet g0 \<and> octet g1 \<and> octet g2 \<and> octet g3"
  then obtain g0 g1 g2 g3 where a: "a = g0 @ ''.'' @ g1 @ ''.'' @ g2 @ ''.'' @ g3"
    and o: "octet g0" "octet g1" "octet g2" "octet g3"
    by blast
  from o have "list_all (\<lambda>x. CHR ''.'' \<notin> set x) [g0, g1, g2, g3]"
    by (simp add: octet_no_dot)
  then have "split_str CHR ''.'' (join ''.'' [g0, g1, g2, g3]) = [g0, g1, g2, g3]"
    by (intro split_str_join) simp_all
  moreover have "join ''.'' [g0, g1, g2, g3] = a"
    by (simp add: a)
  ultimately have "split_str CHR ''.'' a = [g0, g1, g2, g3]"
    by simp
  with o show "RE_ADDRESS_match a"
    by (simp add: RE_ADDRESS_match_def)
qed

subsection \<open>Validity once group parsing runs\<close>

lemma parsed_correctForm:
  assumes "addressMinusSuffix (new_Address4 s) = Some a"
  shows "(RE_ADDRESS_match a \<longrightarrow>
            isValid (new_Address4 s) \<and>
            correctForm (new_Address4 s) = join ''.'' (map strip_zeros (split_str CHR ''.'' a)))
       \<and> (\<not> RE_ADDRESS_match a \<longrightarrow>
            \<not> isValid (new_Address4 s) \<and> error (new_Address4 s) = Some ''Invalid IPv4 address.'')"
proof -
  note f = parsed_fields [OF assms]
  have "correctForm (new_Address4 s) = join ''.'' (map strip_zeros (split_str CHR ''.'' a))"
    if "RE_ADDRESS_match a"
  proof -
    from that have "list_all octet (split_str CHR ''.'' a)"
      by (simp add: RE_ADDRESS_match_def)
    then show ?thesis
      using f by (simp add: correctForm_def map_canonical)
  qed
  with f show ?thesis
    by (simp add: isValid_def)
qed

lemma suffix_free_part:
  assumes "RE_SUBNET_STRING_exec s = None
     \<or> (\<exists>p ds. s = p @ ''/'' @ ds \<and> ds \<noteq> [] \<and> list_all (is_digit 10) ds
           \<and> radix_value 10 ds \<le> 32)"
  shows "addressMinusSuffix (new_Address4 s) = Some (RE_SUBNET_STRING_replace s)"
  using assms
proof (elim disjE exE conjE)
  assume "RE_SUBNET_STRING_exec s = None"
  then show ?thesis
    by (simp add: new_Address4_plain RE_SUBNET_STRING_replace_def)
next
  fix p ds
  assume s: "s = p @ ''/'' @ ds" and d: "ds \<noteq> []" "list_all (is_digit 10) ds"
    and v: "radix_value 10 ds \<le> 32"
  from s have s': "s = p @ CHR ''/'' # ds"
    by simp
  from v show ?thesis
    unfolding s' by (simp add: new_Address4_suffix [OF d] replace_suffix [OF d])
qed

section \<open>Parsing and validation\<close>

text \<open>
  C3, as stated, fails when the input carries a subnet suffix outside 0..32: the constructor
  returns on the mask before \<open>parse\<close> looks at the address. The suffix-free part of
  \<open>1.2.3.4/33\<close> matches the grammar, yet the address is not valid; the suffix-free part of
  \<open>1.2.3/33\<close> does not match, yet the error is \<open>Invalid subnet mask.\<close>
\<close>

theorem parse_valid_counterexample:
  "RE_SUBNET_STRING_replace ''1.2.3.4/33'' = ''1.2.3.4''
   \<and> RE_ADDRESS_match ''1.2.3.4''
   \<and> \<not> isValid (new_Address4 ''1.2.3.4/33'')
   \<and> error (new_Address4 ''1.2.3.4/33'') = Some ''Invalid subnet mask.''
   \<and> RE_SUBNET_STRING_replace ''1.2.3/33'' = ''1.2.3''
   \<and> \<not> RE_ADDRESS_match ''1.2.3''
   \<and> \<not> isValid (new_Address4 ''1.2.3/33'')
   \<and> error (new_Address4 ''1.2.3/33'') = Some ''Invalid subnet mask.''
   \<and> error (new_Address4 ''1.2.3/33'') \<noteq> Some ''Invalid IPv4 address.''"
proof -
  have d: "''33'' \<noteq> []" "list_all (is_digit 10) ''33''"
    by (simp_all add: is_digit_def digit_val_def)
  have v: "radix_value 10 ''33'' = 33"
    by (simp add: radix_value_def digit_val_def)
  have m1: "RE_ADDRESS_match ''1.2.3.4''"
    by (simp add: RE_ADDRESS_match_def octet_def is_digit_def digit_val_def radix_value_def)
  have m2: "\<not> RE_ADDRESS_match ''1.2.3''"
    by (simp add: RE_ADDRESS_match_def)
  have r1: "RE_SUBNET_STRING_replace ''1.2.3.4/33'' = ''1.2.3.4''"
    using replace_suffix [OF d, of "''1.2.3.4''"] by simp
  have r2: "RE_SUBNET_STRING_replace ''1.2.3/33'' = ''1.2.3''"
    using replace_suffix [OF d, of "''1.2.3''"] by simp
  have n1: "\<not> isValid (new_Address4 ''1.2.3.4/33'')
      \<and> error (new_Address4 ''1.2.3.4/33'') = Some ''Invalid subnet mask.''"
    using new_Address4_suffix [OF d, of "''1.2.3.4''"] v by (simp add: isValid_def)
  have n2: "\<not> isValid (new_Address4 ''1.2.3/33'')
      \<and> error (new_Address4 ''1.2.3/33'') = Some ''Invalid subnet mask.''"
    using new_Address4_suffix [OF d, of "''1.2.3''"] v by (simp add: isValid_def)
  from m1 m2 r1 r2 n1 n2 show ?thesis
    by simp
qed

text \<open>
  C3, amended. Take an input with no subnet suffix, or with a suffix \<open>/ds\<close> whose value is
  within 0..32. Its suffix-free part (the input with the recognised suffix removed) is what
  the constructor records and parses. If that part matches the dotted-decimal grammar, the
  address is valid and \<open>correctForm\<close> is the four groups with their leading zeros removed,
  joined by periods. If it does not match, the address is not valid and the error is exactly
  \<open>Invalid IPv4 address.\<close>
\<close>

theorem parse_valid_correctForm:
  assumes "RE_SUBNET_STRING_exec s = None
     \<or> (\<exists>p ds. s = p @ ''/'' @ ds \<and> ds \<noteq> [] \<and> list_all (is_digit 10) ds
           \<and> radix_value 10 ds \<le> 32)"
  shows "addressMinusSuffix (new_Address4 s) = Some (RE_SUBNET_STRING_replace s)
       \<and> (RE_ADDRESS_match (RE_SUBNET_STRING_replace s) \<longrightarrow>
            isValid (new_Address4 s) \<and>
            correctForm (new_Address4 s)
              = join ''.'' (map strip_zeros (split_str CHR ''.'' (RE_SUBNET_STRING_replace s))))
       \<and> (\<not> RE_ADDRESS_match (RE_SUBNET_STRING_replace s) \<longrightarrow>
            \<not> isValid (new_Address4 s) \<and> error (new_Address4 s) = Some ''Invalid IPv4 address.'')"
  using suffix_free_part [OF assms] parsed_correctForm [OF suffix_free_part [OF assms]]
  by (simp only: simp_thms)

theorem parse_valid_correctForm_witness:
  "isValid (new_Address4 ''010.1.002.255/24'') \<and>
   correctForm (new_Address4 ''010.1.002.255/24'') = ''10.1.2.255'' \<and>
   \<not> isValid (new_Address4 ''1.2.3.256'') \<and>
   error (new_Address4 ''1.2.3.256'') = Some ''Invalid IPv4 address.''"
proof -
  have d: "''24'' \<noteq> []" "list_all (is_digit 10) ''24''"
    by (simp_all add: is_digit_def digit_val_def)
  have v: "radix_value 10 ''24'' = 24"
    by (simp add: radix_value_def digit_val_def)
  have h1: "RE_SUBNET_STRING_exec ''010.1.002.255/24'' = None
     \<or> (\<exists>p ds. ''010.1.002.255/24'' = p @ ''/'' @ ds \<and> ds \<noteq> [] \<and> list_all (is_digit 10) ds
           \<and> radix_value 10 ds \<le> 32)"
  proof (intro disjI2 exI conjI)
    show "''010.1.002.255/24'' = ''010.1.002.255'' @ ''/'' @ ''24''"
      by simp
    show "''24'' \<noteq> []" "list_all (is_digit 10) ''24''"
      by (rule d)+
    show "radix_value 10 ''24'' \<le> 32"
      by (simp add: v)
  qed
  have h2: "RE_SUBNET_STRING_exec ''1.2.3.256'' = None
     \<or> (\<exists>p ds. ''1.2.3.256'' = p @ ''/'' @ ds \<and> ds \<noteq> [] \<and> list_all (is_digit 10) ds
           \<and> radix_value 10 ds \<le> 32)"
    by (rule disjI1) (simp add: exec_no_slash)
  have r1: "RE_SUBNET_STRING_replace ''010.1.002.255/24'' = ''010.1.002.255''"
    using replace_suffix [OF d, of "''010.1.002.255''"] by simp
  have r2: "RE_SUBNET_STRING_replace ''1.2.3.256'' = ''1.2.3.256''"
    by (simp add: RE_SUBNET_STRING_replace_def exec_no_slash)
  have m1: "RE_ADDRESS_match ''010.1.002.255''"
    by (simp add: RE_ADDRESS_match_def octet_def is_digit_def digit_val_def radix_value_def)
  have m2: "\<not> RE_ADDRESS_match ''1.2.3.256''"
    by (simp add: RE_ADDRESS_match_def octet_def is_digit_def digit_val_def radix_value_def)
  show ?thesis
    using parse_valid_correctForm [OF h1, unfolded r1] parse_valid_correctForm [OF h2, unfolded r2]
      m1 m2
    by (simp add: strip_zeros_def)
qed

text \<open>
  C6. An input that ends in a subnet suffix \<open>/ds\<close> whose value is outside 0..32 gives an
  address that is not valid, with the error \<open>Invalid subnet mask.\<close>; the subnet label
  \<open>/N\<close> is recorded, and construction returns before the groups are parsed
  (\<open>parsedAddress\<close> stays empty and \<open>addressMinusSuffix\<close> is not set). Every input
  on which the suffix is recognised has this shape (lemma \<open>exec_SomeD\<close>).
\<close>

theorem invalid_subnet_mask:
  assumes "ds \<noteq> []" and "list_all (is_digit 10) ds"
    and "\<not> (0 \<le> int (radix_value 10 ds) \<and> int (radix_value 10 ds) \<le> 32)"
  shows "RE_SUBNET_STRING_exec (p @ ''/'' @ ds) = Some (''/'' @ ds)
       \<and> parseInt ds 10 = Num (int (radix_value 10 ds))
       \<and> \<not> isValid (new_Address4 (p @ ''/'' @ ds))
       \<and> error (new_Address4 (p @ ''/'' @ ds)) = Some ''Invalid subnet mask.''
       \<and> subnet (new_Address4 (p @ ''/'' @ ds)) = ''/'' @ ToString (Num (int (radix_value 10 ds)))
       \<and> subnetMask (new_Address4 (p @ ''/'' @ ds)) = Num (int (radix_value 10 ds))
       \<and> parsedAddress (new_Address4 (p @ ''/'' @ ds)) = []
       \<and> addressMinusSuffix (new_Address4 (p @ ''/'' @ ds)) = None"
  using assms(3)
  by (simp add: new_Address4_suffix [OF assms(1,2)] exec_suffix [OF assms(1,2)]
      parseInt_10_digits [OF assms(1,2)] isValid_def ToString_nat)

theorem invalid_subnet_mask_witness:
  "\<not> isValid (new_Address4 ''1.2.3.4/33'') \<and>
   error (new_Address4 ''1.2.3.4/33'') = Some ''Invalid subnet mask.'' \<and>
   subnet (new_Address4 ''1.2.3.4/33'') = ''/33'' \<and>
   parsedAddress (new_Address4 ''1.2.3.4/33'') = [] \<and>
   addressMinusSuffix (new_Address4 ''1.2.3.4/33'') = None"
proof -
  have d: "''33'' \<noteq> []" "list_all (is_digit 10) ''33''"
    by (simp_all add: is_digit_def digit_val_def)
  have v: "radix_value 10 ''33'' = 33"
    by (simp add: radix_value_def digit_val_def)
  have s: "ToString (Num 33) = ''33''"
    by (simp add: ToString_def int_toString_def digits.simps digit_char_def char_of_def
        bit_Suc_0_iff bit_numeral_simps)
  show ?thesis
    using invalid_subnet_mask [OF d, of "''1.2.3.4''"] v s by simp
qed

text \<open>
  C8, as stated, fails: \<open>parse\<close> returns whatever the split on periods gives. On
  \<open>1.2.3\<close> group parsing runs to completion and leaves three entries.
\<close>

theorem parsedAddress_four_counterexample:
  "addressMinusSuffix (new_Address4 ''1.2.3'') = Some ''1.2.3'' \<and>
   length (parsedAddress (new_Address4 ''1.2.3'')) \<noteq> 4"
  by (simp add: new_Address4_plain exec_no_slash)

text \<open>
  C8, amended. When group parsing runs, \<open>parsedAddress\<close> has one entry more than the
  suffix-free address has periods; it has exactly four entries when the address is valid.
\<close>

theorem parsedAddress_length:
  assumes "addressMinusSuffix (new_Address4 s) = Some a"
  shows "length (parsedAddress (new_Address4 s)) = Suc (count_list a CHR ''.'')
       \<and> (isValid (new_Address4 s) \<longrightarrow> length (parsedAddress (new_Address4 s)) = 4)"
  using parsed_fields [OF assms]
  by (simp add: length_split_str isValid_def RE_ADDRESS_match_def)

theorem parsedAddress_length_witness:
  "length (parsedAddress (new_Address4 ''1.2.3'')) = 3 \<and>
   length (parsedAddress (new_Address4 ''1.2.3.4'')) = 4"
proof -
  have a1: "addressMinusSuffix (new_Address4 ''1.2.3'') = Some ''1.2.3''"
    by (simp add: new_Address4_plain exec_no_slash)
  have a2: "addressMinusSuffix (new_Address4 ''1.2.3.4'') = Some ''1.2.3.4''"
    by (simp add: new_Address4_plain exec_no_slash)
  show ?thesis
    using parsedAddress_length [OF a1] parsedAddress_length [OF a2] by simp
qed

section \<open>Conversions from integers and hexadecimal\<close>

text \<open>
  C4. For every integer \<open>n\<close> from 0 to \<open>2^32 - 1\<close>, \<open>fromInteger(n).toArray()\<close> is the
  big-endian decomposition of \<open>n\<close> into four bytes.
\<close>

theorem fromInteger_toArray:
  assumes "0 \<le> n" and "n < 2 ^ 32"
  shows "toArray (fromInteger (Num n)) =
           [Num (n div 2 ^ 24), Num (n div 2 ^ 16 mod 256), Num (n div 2 ^ 8 mod 256), Num (n mod 256)]
       \<and> (n div 2 ^ 24) * 2 ^ 24 + (n div 2 ^ 16 mod 256) * 2 ^ 16
              + (n div 2 ^ 8 mod 256) * 2 ^ 8 + n mod 256 = n
       \<and> 0 \<le> n div 2 ^ 24 \<and> n div 2 ^ 24 < 256"
proof -
  define m where "m = nat n"
  with assms have n: "n = int m" and m: "m < 2 ^ 32"
    by (simp_all add: nat_less_iff)
  have c0: "n div 2 ^ 24 = int (m div 2 ^ 24)"
    by (simp add: n zdiv_int)
  have c1: "n div 2 ^ 16 mod 256 = int (m div 2 ^ 16 mod 256)"
    by (simp add: n zdiv_int zmod_int)
  have c2: "n div 2 ^ 8 mod 256 = int (m div 2 ^ 8 mod 256)"
    by (simp add: n zdiv_int zmod_int)
  have c3: "n mod 256 = int (m mod 256)"
    by (simp add: n zmod_int)
  have "int ((m div 2 ^ 24) * 2 ^ 24 + (m div 2 ^ 16 mod 256) * 2 ^ 16
     + (m div 2 ^ 8 mod 256) * 2 ^ 8 + m mod 256) = int m"
    by (simp only: bytes_sum_nat)
  then have s: "int (m div 2 ^ 24) * 2 ^ 24 + int (m div 2 ^ 16 mod 256) * 2 ^ 16
     + int (m div 2 ^ 8 mod 256) * 2 ^ 8 + int (m mod 256) = int m"
    by (simp only: of_nat_add of_nat_mult of_nat_power of_nat_numeral)
  from m have "m div 2 ^ 24 < 256"
    by (simp add: less_mult_imp_div_less)
  then have r: "0 \<le> int (m div 2 ^ 24) \<and> int (m div 2 ^ 24) < 256"
    by simp
  show ?thesis
    unfolding c0 c1 c2 c3
    using toArray_fromInteger_nat [OF m] s r by (simp only: n simp_thms)
qed

theorem fromInteger_toArray_witness:
  "toArray (fromInteger (Num 4294967295)) = [Num 255, Num 255, Num 255, Num 255]
   \<and> toArray (fromInteger (Num 0)) = [Num 0, Num 0, Num 0, Num 0]
   \<and> toArray (fromInteger (Num 3232235910)) = [Num 192, Num 168, Num 1, Num 134]"
  using fromInteger_toArray [of 4294967295] fromInteger_toArray [of 0]
    fromInteger_toArray [of 3232235910]
  by simp

text \<open>
  C10. \<open>fromHex\<close> reads only the first eight characters of the colon-free, zero-padded
  string and ignores the rest. So for an integer \<open>n\<close> of \<open>2^32\<close> or more,
  \<open>fromInteger\<close> builds the address from the eight leading hexadecimal digits of \<open>n\<close>, not
  from \<open>n mod 2^32\<close>: \<open>fromInteger(2^32)\<close> is \<open>16.0.0.0\<close>, not \<open>0.0.0.0\<close>.
\<close>

theorem fromHex_reads_first_eight:
  "(8 < length (padStart (filter (\<lambda>c. c \<noteq> CHR '':'') h) 8 CHR ''0'') \<longrightarrow>
      fromHex h = fromHex (take 8 (padStart (filter (\<lambda>c. c \<noteq> CHR '':'') h) 8 CHR ''0'')))
   \<and> (2 ^ 32 \<le> n \<longrightarrow>
        8 < length (number_toString (Num (int n)) 16)
      \<and> fromInteger (Num (int n)) = fromHex (take 8 (number_toString (Num (int n)) 16))
      \<and> fromInteger (Num (int n))
          = fromInteger (Num (int (n div 16 ^ (length (number_toString (Num (int n)) 16) - 8)))))
   \<and> correctForm (fromInteger (Num (2 ^ 32))) = ''16.0.0.0''
   \<and> correctForm (fromInteger (Num (2 ^ 32 mod 2 ^ 32))) = ''0.0.0.0''"
proof (intro conjI impI)
  show "fromHex h = fromHex (take 8 (padStart (filter (\<lambda>c. c \<noteq> CHR '':'') h) 8 CHR ''0''))"
    by (rule fromHex_take8 [symmetric])
next
  assume n: "2 ^ 32 \<le> n"
  have "(16::nat) ^ 8 = 2 ^ 32" by simp
  with n have "16 ^ 8 \<le> n" by simp
  then have len: "8 < length (digits 16 n)"
    by (intro length_digits_gt) simp_all
  then show "8 < length (number_toString (Num (int n)) 16)"
    by (simp add: int_toString_nat)
  have "list_all (is_digit 16) (digits 16 n)"
    by (rule digits_all) simp_all
  then have f: "filter (\<lambda>c. c \<noteq> CHR '':'') (digits 16 n) = digits 16 n"
    by (rule filter_colon_digits)
  from len have p: "padStart (digits 16 n) 8 CHR ''0'' = digits 16 n"
    by (intro padStart_long) simp
  have t: "fromHex (take 8 (digits 16 n)) = fromHex (digits 16 n)"
    using fromHex_take8 [of "digits 16 n"] by (simp only: f p)
  then show "fromInteger (Num (int n)) = fromHex (take 8 (number_toString (Num (int n)) 16))"
    by (simp add: fromInteger_def int_toString_nat)
  from len have "take 8 (digits 16 n) = digits 16 (n div 16 ^ (length (digits 16 n) - 8))"
    by (intro take_digits) simp_all
  with t show "fromInteger (Num (int n))
      = fromInteger (Num (int (n div 16 ^ (length (number_toString (Num (int n)) 16) - 8))))"
    by (simp add: fromInteger_def int_toString_nat)
next
  have "fromInteger (Num (int 4294967296))
      = new_Address4 (join ''.'' (map (digits 10) [16, 0, 0, 0]))"
  proof -
    have d: "digits 16 4294967296 = ''100000000''"
      by (simp add: digits.simps digit_char_def char_of_def bit_Suc_0_iff bit_numeral_simps)
    have "fromHex ''100000000'' = fromHex (take 8 (padStart (filter (\<lambda>c. c \<noteq> CHR '':'') ''100000000'') 8 CHR ''0''))"
      by (rule fromHex_take8 [symmetric])
    also have "take 8 (padStart (filter (\<lambda>c. c \<noteq> CHR '':'') ''100000000'') 8 CHR ''0'') = ''10000000''"
      by (simp add: padStart_def)
    also have "''10000000'' = digits 16 268435456"
      by (simp add: digits.simps digit_char_def char_of_def bit_Suc_0_iff bit_numeral_simps)
    also have "fromHex (digits 16 268435456) = fromInteger (Num (int 268435456))"
      by (simp add: fromInteger_def int_toString_def)
    also have "\<dots> = new_Address4 (join ''.'' (map (digits 10)
       [268435456 div 2 ^ 24, 268435456 div 2 ^ 16 mod 256, 268435456 div 2 ^ 8 mod 256, 268435456 mod 256]))"
      by (rule fromInteger_bytes) simp
    finally show ?thesis
      by (simp add: fromInteger_def int_toString_def d)
  qed
  then have "correctForm (fromInteger (Num (int 4294967296))) = join ''.'' (map (digits 10) [16, 0, 0, 0])"
    by (simp only: correctForm_bytes)
  then show "correctForm (fromInteger (Num (2 ^ 32))) = ''16.0.0.0''"
    by (simp add: digits.simps digit_char_def char_of_def bit_Suc_0_iff bit_numeral_simps)
next
  have "fromInteger (Num (int 0))
      = new_Address4 (join ''.'' (map (digits 10) [0 div 2 ^ 24, 0 div 2 ^ 16 mod 256, 0 div 2 ^ 8 mod 256, 0 mod 256]))"
    by (rule fromInteger_bytes) simp
  then have "fromInteger (Num 0) = new_Address4 (join ''.'' (map (digits 10) [0, 0, 0, 0]))"
    by simp
  then have "correctForm (fromInteger (Num 0)) = join ''.'' (map (digits 10) [0, 0, 0, 0])"
    by (simp only: correctForm_bytes)
  then show "correctForm (fromInteger (Num (2 ^ 32 mod 2 ^ 32))) = ''0.0.0.0''"
    by (simp add: digits.simps digit_char_def char_of_def bit_Suc_0_iff bit_numeral_simps)
qed

theorem fromHex_reads_first_eight_witness:
  "fromHex ''123456789'' = fromHex ''12345678''
   \<and> fromInteger (Num 4294967296) = fromHex ''10000000''
   \<and> fromInteger (Num 4294967296) = fromInteger (Num 268435456)
   \<and> correctForm (fromInteger (Num 4294967296)) = ''16.0.0.0''"
proof -
  have i: "Num (int 4294967296) = Num 4294967296" "Num (2 ^ 32) = Num 4294967296"
    by simp_all
  have a: "8 < length (padStart (filter (\<lambda>c. c \<noteq> CHR '':'') ''123456789'') 8 CHR ''0'')"
    by (simp add: padStart_def)
  have b: "take 8 (padStart (filter (\<lambda>c. c \<noteq> CHR '':'') ''123456789'') 8 CHR ''0'') = ''12345678''"
    by (simp add: padStart_def)
  have c: "number_toString (Num 4294967296) 16 = ''100000000''"
    by (simp add: int_toString_def digits.simps digit_char_def char_of_def bit_Suc_0_iff
        bit_numeral_simps)
  have n: "(2::nat) ^ 32 \<le> 4294967296"
    by simp
  have e: "take 8 ''100000000'' = ''10000000''"
    "Num (int (4294967296 div 16 ^ (length ''100000000'' - 8))) = Num 268435456"
    by simp_all
  note t = fromHex_reads_first_eight [of "''123456789''" 4294967296, unfolded i, unfolded b c,
      unfolded e]
  from t a n show ?thesis
    by blast
qed

text \<open>
  C5. For every valid address, converting to hexadecimal and back gives an address with the
  same correct form: \<open>fromHex(addr.toHex()).correctForm()\<close> is \<open>addr.correctForm()\<close>.
\<close>

theorem fromHex_toHex_correctForm:
  assumes "isValid (new_Address4 s)"
  shows "correctForm (fromHex (toHex (new_Address4 s))) = correctForm (new_Address4 s)
       \<and> isValid (fromHex (toHex (new_Address4 s)))"
proof -
  from assms have "valid (new_Address4 s)"
    by (simp add: isValid_def)
  then obtain g0 g1 g2 g3 m where g: "parsedAddress (new_Address4 s) = [g0, g1, g2, g3]"
    and o: "octet g0" "octet g1" "octet g2" "octet g3"
    by (rule valid_groups)
  note v = octet_value [OF o(1)] octet_value [OF o(2)] octet_value [OF o(3)] octet_value [OF o(4)]
  have h: "fromHex (toHex (new_Address4 s)) = new_Address4 (join ''.'' (map (digits 10)
           [radix_value 10 g0, radix_value 10 g1, radix_value 10 g2, radix_value 10 g3]))"
    using g o by (rule toHex_groups)
  have "correctForm (new_Address4 s) = join ''.'' (map (digits 10)
           [radix_value 10 g0, radix_value 10 g1, radix_value 10 g2, radix_value 10 g3])"
    using o by (simp add: correctForm_def g octet_parseInt ToString_nat)
  moreover have "correctForm (fromHex (toHex (new_Address4 s))) = join ''.'' (map (digits 10)
           [radix_value 10 g0, radix_value 10 g1, radix_value 10 g2, radix_value 10 g3])"
    unfolding h by (rule correctForm_bytes [OF v])
  moreover have "isValid (fromHex (toHex (new_Address4 s)))"
    unfolding h isValid_def new_Address4_bytes [OF v] by simp
  ultimately show ?thesis
    by simp
qed

theorem fromHex_toHex_correctForm_witness:
  "correctForm (fromHex (toHex (new_Address4 ''010.1.002.255/24'')))
     = correctForm (new_Address4 ''010.1.002.255/24'')
   \<and> isValid (new_Address4 ''010.1.002.255/24'')"
proof -
  have d: "list_all (is_digit 10) ''24''" "''24'' \<noteq> []"
    by (simp_all add: is_digit_def digit_val_def)
  have v: "radix_value 10 ''24'' = 24"
    by (simp add: radix_value_def digit_val_def)
  have m: "RE_ADDRESS_match ''010.1.002.255''"
    by (simp add: RE_ADDRESS_match_def octet_def is_digit_def digit_val_def radix_value_def)
  have a: "isValid (new_Address4 ''010.1.002.255/24'')"
    using new_Address4_suffix [of "''24''" "''010.1.002.255''"] d v m by (simp add: isValid_def)
  show ?thesis
    using fromHex_toHex_correctForm [OF a] a by simp
qed

text \<open>
  C7. On an address that is not valid \<open>bigInteger\<close> returns null, and so
  \<open>binaryZeroPad\<close>, \<open>mask\<close>, \<open>getBitsBase2\<close> and \<open>isMulticast\<close> have no result: they call a
  method on the null and throw. On a valid address \<open>bigInteger\<close> is the base-16 value of the
  four groups' two-digit hexadecimal forms put together, that is
  \<open>v0 * 2^24 + v1 * 2^16 + v2 * 2^8 + v3\<close> for the group values \<open>v0 .. v3\<close>.
\<close>

theorem bigInteger_null_or_value:
  "(\<not> isValid a \<longrightarrow>
       bigInteger a = None \<and> binaryZeroPad a = Inl TypeError \<and> mask_bits a m = Inl TypeError
     \<and> getBitsBase2 a i j = Inl TypeError \<and> isMulticast a = Inl TypeError)
   \<and> (isValid (new_Address4 s) \<longrightarrow>
       (\<exists>v0 v1 v2 v3. toArray (new_Address4 s) = [Num (int v0), Num (int v1), Num (int v2), Num (int v3)]
          \<and> v0 \<le> 255 \<and> v1 \<le> 255 \<and> v2 \<le> 255 \<and> v3 \<le> 255
          \<and> map sprintf_02x (toArray (new_Address4 s))
              = [fixed_digits 16 2 v0, fixed_digits 16 2 v1, fixed_digits 16 2 v2, fixed_digits 16 2 v3]
          \<and> bigInteger (new_Address4 s)
              = Some (BigInteger (fixed_digits 16 2 v0 @ fixed_digits 16 2 v1
                        @ fixed_digits 16 2 v2 @ fixed_digits 16 2 v3) 16)
          \<and> bigInteger (new_Address4 s)
              = Some (int (v0 * 2 ^ 24 + v1 * 2 ^ 16 + v2 * 2 ^ 8 + v3))))"
proof (intro conjI impI)
  assume "\<not> isValid a"
  then have n: "bigInteger a = None"
    by (simp add: isValid_def bigInteger_def)
  then show "bigInteger a = None" .
  from n show b: "binaryZeroPad a = Inl TypeError"
    by (simp add: binaryZeroPad_def)
  then show g: "getBitsBase2 a i j = Inl TypeError"
    by (simp add: getBitsBase2_def)
  from b show "mask_bits a m = Inl TypeError"
    by (simp add: mask_bits_def getBitsBase2_def)
  from b show "isMulticast a = Inl TypeError"
    by (simp add: isMulticast_def isInSubnet_def mask_bits_def getBitsBase2_def)
next
  assume "isValid (new_Address4 s)"
  then have val: "valid (new_Address4 s)"
    by (simp add: isValid_def)
  then obtain g0 g1 g2 g3 m where g: "parsedAddress (new_Address4 s) = [g0, g1, g2, g3]"
    and o: "octet g0" "octet g1" "octet g2" "octet g3"
    by (rule valid_groups)
  note v = octet_value [OF o(1)] octet_value [OF o(2)] octet_value [OF o(3)] octet_value [OF o(4)]
  have t: "toArray (new_Address4 s) = [Num (int (radix_value 10 g0)), Num (int (radix_value 10 g1)),
      Num (int (radix_value 10 g2)), Num (int (radix_value 10 g3))]"
    using o by (simp add: toArray_def g octet_parseInt)
  have x: "map sprintf_02x (toArray (new_Address4 s))
      = [fixed_digits 16 2 (radix_value 10 g0), fixed_digits 16 2 (radix_value 10 g1),
         fixed_digits 16 2 (radix_value 10 g2), fixed_digits 16 2 (radix_value 10 g3)]"
    unfolding t using v by (simp add: sprintf_02x_byte)
  show "\<exists>v0 v1 v2 v3. toArray (new_Address4 s) = [Num (int v0), Num (int v1), Num (int v2), Num (int v3)]
          \<and> v0 \<le> 255 \<and> v1 \<le> 255 \<and> v2 \<le> 255 \<and> v3 \<le> 255
          \<and> map sprintf_02x (toArray (new_Address4 s))
              = [fixed_digits 16 2 v0, fixed_digits 16 2 v1, fixed_digits 16 2 v2, fixed_digits 16 2 v3]
          \<and> bigInteger (new_Address4 s)
              = Some (BigInteger (fixed_digits 16 2 v0 @ fixed_digits 16 2 v1
                        @ fixed_digits 16 2 v2 @ fixed_digits 16 2 v3) 16)
          \<and> bigInteger (new_Address4 s)
              = Some (int (v0 * 2 ^ 24 + v1 * 2 ^ 16 + v2 * 2 ^ 8 + v3))"
  proof (intro exI conjI)
    show "toArray (new_Address4 s) = [Num (int (radix_value 10 g0)), Num (int (radix_value 10 g1)),
      Num (int (radix_value 10 g2)), Num (int (radix_value 10 g3))]"
      by (rule t)
    show "radix_value 10 g0 \<le> 255" "radix_value 10 g1 \<le> 255"
      "radix_value 10 g2 \<le> 255" "radix_value 10 g3 \<le> 255"
      by (rule v)+
    show "map sprintf_02x (toArray (new_Address4 s))
      = [fixed_digits 16 2 (radix_value 10 g0), fixed_digits 16 2 (radix_value 10 g1),
         fixed_digits 16 2 (radix_value 10 g2), fixed_digits 16 2 (radix_value 10 g3)]"
      by (rule x)
    show "bigInteger (new_Address4 s) = Some (BigInteger (fixed_digits 16 2 (radix_value 10 g0)
            @ fixed_digits 16 2 (radix_value 10 g1) @ fixed_digits 16 2 (radix_value 10 g2)
            @ fixed_digits 16 2 (radix_value 10 g3)) 16)"
      by (rule bigInteger_groups(1) [OF val g o])
    show "bigInteger (new_Address4 s) = Some (int (radix_value 10 g0 * 2 ^ 24 + radix_value 10 g1 * 2 ^ 16
            + radix_value 10 g2 * 2 ^ 8 + radix_value 10 g3))"
      by (rule bigInteger_groups(2) [OF val g o])
  qed
qed

theorem bigInteger_null_or_value_witness:
  "bigInteger (new_Address4 ''1.2.3'') = None
   \<and> binaryZeroPad (new_Address4 ''1.2.3'') = Inl TypeError
   \<and> isMulticast (new_Address4 ''1.2.3'') = Inl TypeError
   \<and> bigInteger (new_Address4 ''1.2.3.4'') = Some 16909060"
proof -
  have i: "\<not> isValid (new_Address4 ''1.2.3'')"
    by (simp add: isValid_def new_Address4_plain exec_no_slash RE_ADDRESS_match_def)
  have m: "RE_ADDRESS_match ''1.2.3.4''"
    by (simp add: RE_ADDRESS_match_def octet_def is_digit_def digit_val_def radix_value_def)
  then have a: "isValid (new_Address4 ''1.2.3.4'')"
    by (simp add: isValid_def new_Address4_plain exec_no_slash)
  have t: "toArray (new_Address4 ''1.2.3.4'') = [Num 1, Num 2, Num 3, Num 4]"
    by (simp add: toArray_def new_Address4_plain exec_no_slash parseInt_def is_whitespace_def
        is_digit_def digit_val_def radix_value_def)
  from bigInteger_null_or_value [of "new_Address4 ''1.2.3''" _ _ _ "''1.2.3.4''"] i
  have 1: "bigInteger (new_Address4 ''1.2.3'') = None
   \<and> binaryZeroPad (new_Address4 ''1.2.3'') = Inl TypeError
   \<and> isMulticast (new_Address4 ''1.2.3'') = Inl TypeError"
    by blast
  from bigInteger_null_or_value [of "new_Address4 ''1.2.3''" _ _ _ "''1.2.3.4''"] a
  obtain v0 v1 v2 v3 where "toArray (new_Address4 ''1.2.3.4'') = [Num (int v0), Num (int v1), Num (int v2), Num (int v3)]"
    and b: "bigInteger (new_Address4 ''1.2.3.4'') = Some (int (v0 * 2 ^ 24 + v1 * 2 ^ 16 + v2 * 2 ^ 8 + v3))"
    by blast
  with t have "v0 = 1" "v1 = 2" "v2 = 3" "v3 = 4"
    by simp_all
  with b have "bigInteger (new_Address4 ''1.2.3.4'') = Some 16909060"
    by simp
  with 1 show ?thesis
    by blast
qed

section \<open>Subnet boundaries and multicast\<close>

text \<open>
  C1, as stated, fails at the two ends of the address space. For the single host
  \<open>255.255.255.255\<close> the start address plus one is \<open>2^32\<close>, and \<open>startAddressExclusive\<close>
  returns \<open>16.0.0.0\<close>; for the single host \<open>0.0.0.0\<close> the end address minus one is \<open>-1\<close>,
  and \<open>endAddressExclusive\<close> returns an address that is not valid, with groups
  \<open>0.0.0.-1\<close>.
\<close>

theorem exclusive_addresses_counterexample:
  "isValid (new_Address4 ''255.255.255.255'')
   \<and> startAddress (new_Address4 ''255.255.255.255'') = Inr (new_Address4 ''255.255.255.255'')
   \<and> bigInteger (new_Address4 ''255.255.255.255'') = Some 4294967295
   \<and> startAddressExclusive (new_Address4 ''255.255.255.255'') = Inr (new_Address4 ''16.0.0.0'')
   \<and> bigInteger (new_Address4 ''16.0.0.0'') = Some 268435456
   \<and> correctForm (new_Address4 ''16.0.0.0'') = ''16.0.0.0''
   \<and> isValid (new_Address4 ''0.0.0.0'')
   \<and> endAddress (new_Address4 ''0.0.0.0'') = Inr (new_Address4 ''0.0.0.0'')
   \<and> bigInteger (new_Address4 ''0.0.0.0'') = Some 0
   \<and> endAddressExclusive (new_Address4 ''0.0.0.0'') = Inr (new_Address4 ''0.0.0.-1'')
   \<and> \<not> isValid (new_Address4 ''0.0.0.-1'')
   \<and> bigInteger (new_Address4 ''0.0.0.-1'') = None
   \<and> correctForm (new_Address4 ''0.0.0.-1'') = ''0.0.0.-1''"
proof -
  have o: "octet ''255''" "octet ''0''" "octet ''16''"
    by (simp_all add: octet_eval)
  have r: "radix_value 10 ''255'' = 255" "radix_value 10 ''0'' = 0" "radix_value 10 ''16'' = 16"
    by (simp_all add: octet_eval)
  have v1: "valid (new_Address4 ''255.255.255.255'')" and v0: "valid (new_Address4 ''0.0.0.0'')"
    and v16: "valid (new_Address4 ''16.0.0.0'')" and vm: "\<not> valid (new_Address4 ''0.0.0.-1'')"
    by (simp_all add: new_Address4_literals)
  have b1: "bigInteger (new_Address4 ''255.255.255.255'') = Some (int 4294967295)"
    using bigInteger_groups(2) [OF v1, of "''255''" "''255''" "''255''" "''255''"] o
    by (simp add: new_Address4_literals r)
  have b0: "bigInteger (new_Address4 ''0.0.0.0'') = Some (int 0)"
    using bigInteger_groups(2) [OF v0, of "''0''" "''0''" "''0''" "''0''"] o
    by (simp add: new_Address4_literals r)
  have b16: "bigInteger (new_Address4 ''16.0.0.0'') = Some 268435456"
    using bigInteger_groups(2) [OF v16, of "''16''" "''0''" "''0''" "''0''"] o
    by (simp add: new_Address4_literals r)
  have m: "subnetMask (new_Address4 ''255.255.255.255'') = Num (int 32)"
    "subnetMask (new_Address4 ''0.0.0.0'') = Num (int 32)"
    by (simp_all add: new_Address4_literals)
  have f1: "fromInteger (Num 4294967295) = new_Address4 ''255.255.255.255''"
    using fromInteger_bytes [of 4294967295] by (simp add: digits_eval)
  have f0: "fromInteger (Num 0) = new_Address4 ''0.0.0.0''"
    using fromInteger_bytes [of 0] by (simp add: digits_eval)
  have s1: "startAddress (new_Address4 ''255.255.255.255'') = Inr (new_Address4 ''255.255.255.255'')"
    using boundary_values(1) [OF b1 _ m(1)] by (simp add: f1)
  have x1: "startAddressExclusive (new_Address4 ''255.255.255.255'') = Inr (new_Address4 ''16.0.0.0'')"
    using boundary_values(3) [OF b1 _ m(1)] by (simp add: fromInteger_2_32)
  have e0: "endAddress (new_Address4 ''0.0.0.0'') = Inr (new_Address4 ''0.0.0.0'')"
    using boundary_values(2) [OF b0 _ m(2)] by (simp add: f0)
  have x0: "endAddressExclusive (new_Address4 ''0.0.0.0'') = Inr (new_Address4 ''0.0.0.-1'')"
    using boundary_values(4) [OF b0 _ m(2)] by (simp add: fromBigInteger_minus_one)
  have c16: "correctForm (new_Address4 ''16.0.0.0'') = ''16.0.0.0''"
    by (simp add: correctForm_def new_Address4_literals octet_parseInt o r ToString_def
        int_toString_def digits_eval)
  have pm: "parseInt ''-1'' 10 = Num (- 1)" "parseInt ''0'' 10 = Num 0"
    by (simp_all add: parseInt_def is_whitespace_def octet_eval)
  have cm: "correctForm (new_Address4 ''0.0.0.-1'') = ''0.0.0.-1''"
    by (simp add: correctForm_def new_Address4_literals pm ToString_def int_toString_def
        digits_eval)
  have bm: "bigInteger (new_Address4 ''0.0.0.-1'') = None"
    using vm by (simp add: bigInteger_def)
  from v1 v0 vm b1 b0 b16 s1 x1 e0 x0 c16 cm bm show ?thesis
    by (simp add: isValid_def)
qed

text \<open>
  C1, amended. For every valid address with its mask, none of the four boundary operations
  throws; \<open>startAddress\<close> and \<open>endAddress\<close> are valid addresses whose 32-bit values \<open>S\<close> and
  \<open>E\<close> satisfy \<open>S \<le> N \<le> E\<close> for the value \<open>N\<close> of the address (\<open>S\<close> is \<open>N\<close> with the host
  bits cleared, \<open>E\<close> is \<open>N\<close> with the host bits set); \<open>startAddressExclusive\<close> is the valid
  address of value \<open>S + 1\<close> whenever \<open>S + 1\<close> is below \<open>2^32\<close>, and \<open>endAddressExclusive\<close> is the
  valid address of value \<open>E - 1\<close> whenever \<open>E\<close> is above 0. This covers every mask from 0 to
  32; only \<open>255.255.255.255/32\<close> and \<open>0.0.0.0/32\<close> fall outside the two conditions.
\<close>

theorem boundary_addresses:
  assumes "isValid (new_Address4 s)"
  shows "\<exists>N m S E st en sx ex.
       bigInteger (new_Address4 s) = Some (int N) \<and> N < 2 ^ 32
     \<and> subnetMask (new_Address4 s) = Num (int m) \<and> m \<le> 32
     \<and> S = N div 2 ^ (32 - m) * 2 ^ (32 - m) \<and> E = S + (2 ^ (32 - m) - 1)
     \<and> startAddress (new_Address4 s) = Inr st \<and> endAddress (new_Address4 s) = Inr en
     \<and> startAddressExclusive (new_Address4 s) = Inr sx
     \<and> endAddressExclusive (new_Address4 s) = Inr ex
     \<and> isValid st \<and> bigInteger st = Some (int S)
     \<and> isValid en \<and> bigInteger en = Some (int E)
     \<and> S \<le> N \<and> N \<le> E \<and> E < 2 ^ 32
     \<and> (S + 1 < 2 ^ 32 \<longrightarrow> isValid sx \<and> bigInteger sx = Some (int S + 1))
     \<and> (0 < E \<longrightarrow> isValid ex \<and> bigInteger ex = Some (int E - 1))"
proof -
  from assms have "valid (new_Address4 s)"
    by (simp add: isValid_def)
  then obtain N m where N: "bigInteger (new_Address4 s) = Some (int N)" "N < 2 ^ 32"
    and m: "subnetMask (new_Address4 s) = Num (int m)" "m \<le> 32"
    by (rule valid_value)
  define S where "S = N div 2 ^ (32 - m) * 2 ^ (32 - m)"
  define E where "E = S + (2 ^ (32 - m) - 1)"
  note b = boundary_values [OF N m, folded S_def, folded E_def]
  note r = subnet_bounds [OF N(2) m(2), folded S_def, folded E_def]
  from r have S32: "S < 2 ^ 32"
    by linarith
  have sx: "isValid (fromInteger (Num (int (S + 1)))) \<and>
      bigInteger (fromInteger (Num (int (S + 1)))) = Some (int S + 1)" if "S + 1 < 2 ^ 32"
    using bigInteger_fromInteger [OF that] by (simp add: isValid_def)
  have ex: "isValid (fromBigInteger (int E - 1)) \<and>
      bigInteger (fromBigInteger (int E - 1)) = Some (int E - 1)" if "0 < E"
  proof -
    from that have e: "int E - 1 = int (E - 1)"
      by simp
    from r(3) have "E - 1 < 2 ^ 32"
      by linarith
    then show ?thesis
      unfolding e fromBigInteger_nat using bigInteger_fromInteger [of "E - 1"]
      by (simp add: isValid_def)
  qed
  show ?thesis
  proof (intro exI conjI)
    show "bigInteger (new_Address4 s) = Some (int N)" "N < 2 ^ 32"
      "subnetMask (new_Address4 s) = Num (int m)" "m \<le> 32"
      by (rule N m)+
    show "S = N div 2 ^ (32 - m) * 2 ^ (32 - m)" "E = S + (2 ^ (32 - m) - 1)"
      by (rule S_def E_def)+
    show "startAddress (new_Address4 s) = Inr (fromInteger (Num (int S)))"
      "endAddress (new_Address4 s) = Inr (fromInteger (Num (int E)))"
      "startAddressExclusive (new_Address4 s) = Inr (fromInteger (Num (int (S + 1))))"
      "endAddressExclusive (new_Address4 s) = Inr (fromBigInteger (int E - 1))"
      by (rule b)+
    show "isValid (fromInteger (Num (int S)))" "isValid (fromInteger (Num (int E)))"
      using bigInteger_fromInteger(2) [OF S32] bigInteger_fromInteger(2) [OF r(3)]
      by (simp_all add: isValid_def)
    show "bigInteger (fromInteger (Num (int S))) = Some (int S)"
      "bigInteger (fromInteger (Num (int E))) = Some (int E)"
      by (rule bigInteger_fromInteger(1) [OF S32] bigInteger_fromInteger(1) [OF r(3)])+
    show "S \<le> N" "N \<le> E" "E < 2 ^ 32"
      by (rule r)+
    show "S + 1 < 2 ^ 32 \<longrightarrow> isValid (fromInteger (Num (int (S + 1)))) \<and>
      bigInteger (fromInteger (Num (int (S + 1)))) = Some (int S + 1)"
      using sx by blast
    show "0 < E \<longrightarrow> isValid (fromBigInteger (int E - 1)) \<and>
      bigInteger (fromBigInteger (int E - 1)) = Some (int E - 1)"
      using ex by blast
  qed
qed

theorem boundary_addresses_witness:
  "\<exists>st en sx ex.
       startAddress (new_Address4 ''192.168.1.134/26'') = Inr st
     \<and> endAddress (new_Address4 ''192.168.1.134/26'') = Inr en
     \<and> startAddressExclusive (new_Address4 ''192.168.1.134/26'') = Inr sx
     \<and> endAddressExclusive (new_Address4 ''192.168.1.134/26'') = Inr ex
     \<and> bigInteger (new_Address4 ''192.168.1.134/26'') = Some 3232235910
     \<and> bigInteger st = Some 3232235904 \<and> bigInteger en = Some 3232235967
     \<and> bigInteger sx = Some 3232235905 \<and> bigInteger ex = Some 3232235966"
proof -
  have v: "isValid (new_Address4 ''192.168.1.134/26'')"
    using example_26(1) by (simp add: isValid_def)
  from boundary_addresses [OF v] show ?thesis
  proof (elim exE conjE)
    fix N m S E st en sx ex
    assume N: "bigInteger (new_Address4 ''192.168.1.134/26'') = Some (int N)"
      and m: "subnetMask (new_Address4 ''192.168.1.134/26'') = Num (int m)"
      and S: "S = N div 2 ^ (32 - m) * 2 ^ (32 - m)" and E: "E = S + (2 ^ (32 - m) - 1)"
      and r: "startAddress (new_Address4 ''192.168.1.134/26'') = Inr st"
        "endAddress (new_Address4 ''192.168.1.134/26'') = Inr en"
        "startAddressExclusive (new_Address4 ''192.168.1.134/26'') = Inr sx"
        "endAddressExclusive (new_Address4 ''192.168.1.134/26'') = Inr ex"
      and b: "bigInteger st = Some (int S)" "bigInteger en = Some (int E)"
      and x: "S + 1 < 2 ^ 32 \<longrightarrow> isValid sx \<and> bigInteger sx = Some (int S + 1)"
        "0 < E \<longrightarrow> isValid ex \<and> bigInteger ex = Some (int E - 1)"
    from N m have "N = 3232235910" "m = 26"
      using example_26(2,3) by simp_all
    with S E have v: "S = 3232235904" "E = 3232235967"
      by simp_all
    from b have "bigInteger st = Some 3232235904" "bigInteger en = Some 3232235967"
      unfolding v by simp_all
    moreover from x have "bigInteger sx = Some 3232235905" "bigInteger ex = Some 3232235966"
      unfolding v by simp_all
    ultimately show ?thesis
      using r example_26(2) by simp
  qed
qed

text \<open>
  C2. For the input \<open>192.168.1.134/26\<close>, \<open>startAddress().correctForm()\<close> is
  \<open>192.168.1.128\<close> and \<open>endAddress().correctForm()\<close> is \<open>192.168.1.191\<close>.
\<close>

theorem example_26_boundaries:
  "map_sum id correctForm (startAddress (new_Address4 ''192.168.1.134/26'')) = Inr ''192.168.1.128''
   \<and> map_sum id correctForm (endAddress (new_Address4 ''192.168.1.134/26'')) = Inr ''192.168.1.191''"
proof -
  note b = boundary_values [OF example_26(2) _ example_26(3)]
  have s: "startAddress (new_Address4 ''192.168.1.134/26'') = Inr (fromInteger (Num (int 3232235904)))"
    using b(1) by simp
  have e: "endAddress (new_Address4 ''192.168.1.134/26'') = Inr (fromInteger (Num (int 3232235967)))"
    using b(2) by simp
  have fs: "fromInteger (Num (int 3232235904)) = new_Address4 (join ''.'' (map (digits 10) [192, 168, 1, 128]))"
    using fromInteger_bytes [of 3232235904] by simp
  have fe: "fromInteger (Num (int 3232235967)) = new_Address4 (join ''.'' (map (digits 10) [192, 168, 1, 191]))"
    using fromInteger_bytes [of 3232235967] by simp
  have cs: "correctForm (new_Address4 (join ''.'' (map (digits 10) [192, 168, 1, 128])))
      = join ''.'' (map (digits 10) [192, 168, 1, 128])"
    by (rule correctForm_bytes) simp_all
  have ce: "correctForm (new_Address4 (join ''.'' (map (digits 10) [192, 168, 1, 191])))
      = join ''.'' (map (digits 10) [192, 168, 1, 191])"
    by (rule correctForm_bytes) simp_all
  have js: "join ''.'' (map (digits 10) [192, 168, 1, 128]) = ''192.168.1.128''"
    by (simp add: digits_eval)
  have je: "join ''.'' (map (digits 10) [192, 168, 1, 191]) = ''192.168.1.191''"
    by (simp add: digits_eval)
  from cs have cs': "correctForm (new_Address4 ''192.168.1.128'') = ''192.168.1.128''"
    by (simp only: js)
  from ce have ce': "correctForm (new_Address4 ''192.168.1.191'') = ''192.168.1.191''"
    by (simp only: je)
  show ?thesis
    unfolding s e fs fe js je by (simp only: map_sum.simps cs' ce' id_apply simp_thms)
qed

text \<open>
  C9. On a valid address \<open>isMulticast\<close> is \<open>isInSubnet\<close> against \<open>224.0.0.0/4\<close>: it is true
  exactly when the first four characters of the address's 32-character binary form are those
  of \<open>224.0.0.0\<close>, whatever the address's own mask. \<open>224.0.0.1\<close> is multicast,
  \<open>10.0.0.1\<close> is not.
\<close>

theorem isMulticast_leading_bits:
  assumes "isValid (new_Address4 s)"
  shows "\<exists>bits. binaryZeroPad (new_Address4 s) = Inr bits \<and> length bits = 32
     \<and> binaryZeroPad (new_Address4 ''224.0.0.0/4'') = Inr ''11100000000000000000000000000000''
     \<and> subnetMask (new_Address4 ''224.0.0.0/4'') = Num 4
     \<and> isMulticast (new_Address4 s) = isInSubnet (new_Address4 s) (new_Address4 ''224.0.0.0/4'')
     \<and> isMulticast (new_Address4 s)
          = Inr (take 4 bits = take 4 ''11100000000000000000000000000000'')
     \<and> isMulticast (new_Address4 ''224.0.0.1'') = Inr True
     \<and> isMulticast (new_Address4 ''10.0.0.1'') = Inr False"
proof -
  from assms have "valid (new_Address4 s)"
    by (simp add: isValid_def)
  then obtain N m where N: "bigInteger (new_Address4 s) = Some (int N)" "N < 2 ^ 32"
    by (rule valid_value)
  have o: "octet ''224''" "octet ''0''" "octet ''1''" "octet ''10''"
    by (simp_all add: octet_eval)
  have r: "radix_value 10 ''224'' = 224" "radix_value 10 ''0'' = 0" "radix_value 10 ''1'' = 1"
    "radix_value 10 ''10'' = 10"
    by (simp_all add: octet_eval)
  have n1: "new_Address4 ''224.0.0.1'' =
     \<lparr>address = ''224.0.0.1'', addressMinusSuffix = Some ''224.0.0.1'',
      error = None, groups = 4, parsedAddress = [''224'', ''0'', ''0'', ''1''],
      parsedSubnet = '''', subnet = ''/32'', subnetMask = Num 32, v4 = True, valid = True\<rparr>"
    by (simp add: new_Address4_plain exec_no_slash RE_ADDRESS_match_def o)
  have n2: "new_Address4 ''10.0.0.1'' =
     \<lparr>address = ''10.0.0.1'', addressMinusSuffix = Some ''10.0.0.1'',
      error = None, groups = 4, parsedAddress = [''10'', ''0'', ''0'', ''1''],
      parsedSubnet = '''', subnet = ''/32'', subnetMask = Num 32, v4 = True, valid = True\<rparr>"
    by (simp add: new_Address4_plain exec_no_slash RE_ADDRESS_match_def o)
  have b1: "bigInteger (new_Address4 ''224.0.0.1'') = Some (int 3758096385)"
    using bigInteger_groups(2) [of "new_Address4 ''224.0.0.1''" "''224''" "''0''" "''0''" "''1''"] o
    by (simp add: n1 r)
  have b2: "bigInteger (new_Address4 ''10.0.0.1'') = Some (int 167772161)"
    using bigInteger_groups(2) [of "new_Address4 ''10.0.0.1''" "''10''" "''0''" "''0''" "''1''"] o
    by (simp add: n2 r)
  have e1: "isMulticast (new_Address4 ''224.0.0.1'') = Inr True"
    using isMulticast_value(2) [OF b1] by simp
  have e2: "isMulticast (new_Address4 ''10.0.0.1'') = Inr False"
    using isMulticast_value(2) [OF b2] by simp
  show ?thesis
  proof (intro exI conjI)
    show "binaryZeroPad (new_Address4 s) = Inr (fixed_digits 2 32 N)"
      using N by (rule binaryZeroPad_value)
    show "length (fixed_digits 2 32 N) = 32"
      by simp
    show "binaryZeroPad (new_Address4 ''224.0.0.0/4'') = Inr ''11100000000000000000000000000000''"
      by (rule multicast_block_bits)
    show "subnetMask (new_Address4 ''224.0.0.0/4'') = Num 4"
      using multicast_block(3) by simp
    show "isMulticast (new_Address4 s) = isInSubnet (new_Address4 s) (new_Address4 ''224.0.0.0/4'')"
      by (simp add: isMulticast_def)
    show "isMulticast (new_Address4 s)
          = Inr (take 4 (fixed_digits 2 32 N) = take 4 ''11100000000000000000000000000000'')"
      using isMulticast_value(1) [OF N] by simp
    show "isMulticast (new_Address4 ''224.0.0.1'') = Inr True"
      by (rule e1)
    show "isMulticast (new_Address4 ''10.0.0.1'') = Inr False"
      by (rule e2)
  qed
qed

theorem isMulticast_leading_bits_witness:
  "isMulticast (new_Address4 ''224.0.0.1'') = Inr True
   \<and> isMulticast (new_Address4 ''10.0.0.1'') = Inr False
   \<and> (\<exists>bits. binaryZeroPad (new_Address4 ''192.168.1.134/26'') = Inr bits
        \<and> isMulticast (new_Address4 ''192.168.1.134/26'') = Inr (take 4 bits = ''1110''))"
proof -
  have v: "isValid (new_Address4 ''192.168.1.134/26'')"
    using example_26(1) by (simp add: isValid_def)
  from isMulticast_leading_bits [OF v] show ?thesis
    by auto
qed

end
